theory Spec2Isabelle
  imports Main "HOL-Library.AList" "HOL-Library.Sublist"
begin

section \<open>Containers of the trainers\<close>

text \<open>
  The trainers (\<^verbatim>\<open>src/bpe.cpp\<close>, \<^verbatim>\<open>src/bpes/bpe.cpp\<close>, \<^verbatim>\<open>src/bpes/bpe_sa.cpp\<close>) keep
  token ids in \<^verbatim>\<open>int\<close>, word indices in an \<^verbatim>\<open>unordered_set<int>\<close> and the pair index in
  an \<^verbatim>\<open>unordered_map\<close>. An unordered set is a list without duplicates, an unordered map
  an association list with one entry per key; the order of the list is the order in which
  the container is iterated (new elements go to the end). A C++ \<^verbatim>\<open>int\<close> has
  32 bits: a frequency is accumulated with the wrap-around of the built program, written
  out as \<open>int32\<close> (a signed overflow has no defined behaviour in the source). The count
  of a pair inside one word is kept exact: only a word of more than two thousand million
  tokens could overflow it.
\<close>

definition int32 :: "int \<Rightarrow> int" where
  "int32 x = (x + 2147483648) mod 4294967296 - 2147483648"

type_synonym token_pair = "int \<times> int"

type_synonym pair_index = "(token_pair \<times> nat list) list"

definition uset_insert :: "'a \<Rightarrow> 'a list \<Rightarrow> 'a list" where
  "uset_insert x xs = (if x \<in> set xs then xs else xs @ [x])"

text \<open>\<^verbatim>\<open>pair_to_word_indices[p].insert(idx)\<close>\<close>

definition index_insert :: "token_pair \<Rightarrow> nat \<Rightarrow> pair_index \<Rightarrow> pair_index" where
  "index_insert p idx m =
     AList.update p (uset_insert idx (case map_of m p of None \<Rightarrow> [] | Some is \<Rightarrow> is)) m"

text \<open>
  \<^verbatim>\<open>it = find(p); if (it != end) { it->second.erase(idx); if (it->second.empty()) erase(it); }\<close>
\<close>

definition index_remove :: "token_pair \<Rightarrow> nat \<Rightarrow> pair_index \<Rightarrow> pair_index" where
  "index_remove p idx m =
     (case map_of m p of
        None \<Rightarrow> m
      | Some is \<Rightarrow>
          (let is' = removeAll idx is
           in if is' = [] then AList.delete p m else AList.update p is' m))"

text \<open>
  \<^verbatim>\<open>affected_words = pair_to_word_indices[best_pair]\<close>: \<^verbatim>\<open>operator[]\<close> makes an empty entry
  when the key is absent.
\<close>

definition index_at :: "token_pair \<Rightarrow> pair_index \<Rightarrow> pair_index \<times> nat list" where
  "index_at p m =
     (case map_of m p of None \<Rightarrow> (m @ [(p, [])], []) | Some is \<Rightarrow> (m, is))"

section \<open>Words, merge rules, symbols\<close>

text \<open>
  \<^verbatim>\<open>WordEntry\<close> has the fields \<^verbatim>\<open>tokens\<close> and \<^verbatim>\<open>pairSet\<close> in every trainer;
  \<^verbatim>\<open>src/bpe.cpp\<close> adds \<^verbatim>\<open>tf\<close> and \<^verbatim>\<open>df\<close>, the two trainers under \<^verbatim>\<open>src/bpes\<close> add
  \<^verbatim>\<open>original\<close>.
\<close>

record WordEntry =
  tokens :: "int list"
  pairSet :: "token_pair list"

record WordEntryTF = WordEntry +
  tf :: int
  df :: int

record WordEntryOrig = WordEntry +
  original :: string

record MergeRule =
  merge_pair :: token_pair
  new_token :: int
  frequency :: int

text \<open>The globals \<^verbatim>\<open>token_to_id\<close> and \<^verbatim>\<open>id_to_token\<close>.\<close>

record symbols =
  token_to_id :: "string \<rightharpoonup> int"
  id_to_token :: "string list"

definition get_token_id :: "string \<Rightarrow> symbols \<Rightarrow> int \<times> symbols" where
  "get_token_id token tab =
     (case token_to_id tab token of
        Some i \<Rightarrow> (i, tab)
      | None \<Rightarrow>
          (let new_id = int (length (id_to_token tab))
           in (new_id, \<lparr>token_to_id = (token_to_id tab)(token \<mapsto> new_id),
                        id_to_token = id_to_token tab @ [token]\<rparr>)))"

section \<open>The functions on one word\<close>

fun compute_pairs_acc :: "int list \<Rightarrow> token_pair list \<Rightarrow> token_pair list" where
  "compute_pairs_acc (a # b # ts) pairs = compute_pairs_acc (b # ts) (uset_insert (a, b) pairs)"
| "compute_pairs_acc [a] pairs = pairs"
| "compute_pairs_acc [] pairs = pairs"

definition compute_pairs :: "int list \<Rightarrow> token_pair list" where
  "compute_pairs ts = compute_pairs_acc ts []"

fun count_occurrences_in_word :: "int list \<Rightarrow> token_pair \<Rightarrow> int" where
  "count_occurrences_in_word (a # b # ts) p =
     (if a = fst p \<and> b = snd p then 1 else 0) + count_occurrences_in_word (b # ts) p"
| "count_occurrences_in_word [a] p = 0"
| "count_occurrences_in_word [] p = 0"

fun merge_pair_in_word :: "int list \<Rightarrow> token_pair \<Rightarrow> int \<Rightarrow> int list" where
  "merge_pair_in_word (a # b # ts) target_pair new_token_id =
     (if a = fst target_pair \<and> b = snd target_pair
      then new_token_id # merge_pair_in_word ts target_pair new_token_id
      else a # merge_pair_in_word (b # ts) target_pair new_token_id)"
| "merge_pair_in_word [a] target_pair new_token_id = [a]"
| "merge_pair_in_word [] target_pair new_token_id = []"

section \<open>The merge loop\<close>

text \<open>
  The three trainers share the loop. They differ in the weight of a word in a pair's
  frequency (\<^verbatim>\<open>words[idx].tf\<close> in \<^verbatim>\<open>src/bpe.cpp\<close>, no factor, that is 1, in the other two:
  the parameter \<open>wt\<close>) and in the number stored in the merge rule (the parameter \<open>rf\<close>,
  which gets the words, the new token's string and \<^verbatim>\<open>best_freq\<close>).
\<close>

definition pair_freq ::
  "('a WordEntry_scheme \<Rightarrow> int) \<Rightarrow> 'a WordEntry_scheme list \<Rightarrow> token_pair \<Rightarrow> nat list \<Rightarrow> int" where
  "pair_freq wt ws p idxs =
     fold (\<lambda>idx freq.
             int32 (freq + int32 (count_occurrences_in_word (tokens (ws ! idx)) p * wt (ws ! idx))))
          idxs 0"

definition find_best ::
  "('a WordEntry_scheme \<Rightarrow> int) \<Rightarrow> 'a WordEntry_scheme list \<Rightarrow> pair_index \<Rightarrow> token_pair \<times> int" where
  "find_best wt ws m =
     fold (\<lambda>kv best.
             (let freq = pair_freq wt ws (fst kv) (snd kv)
              in if freq > snd best then (fst kv, freq) else best))
          m ((- 1, - 1), 0)"

text \<open>The body of \<^verbatim>\<open>for (int idx : affected_words)\<close>.\<close>

definition update_word ::
  "token_pair \<Rightarrow> int \<Rightarrow> nat \<Rightarrow> 'a WordEntry_scheme list \<times> pair_index
     \<Rightarrow> 'a WordEntry_scheme list \<times> pair_index" where
  "update_word best_pair new_token_id idx wm =
     (let ws = fst wm; m = snd wm;
          word = ws ! idx;
          old_pairSet = pairSet word;
          new_tokens = merge_pair_in_word (tokens word) best_pair new_token_id;
          new_pairSet = compute_pairs new_tokens;
          m1 = fold (\<lambda>p m. if p \<notin> set new_pairSet then index_remove p idx m else m) old_pairSet m;
          m2 = fold (\<lambda>p m. if p \<notin> set old_pairSet then index_insert p idx m else m) new_pairSet m1
      in (ws[idx := word\<lparr>tokens := new_tokens, pairSet := new_pairSet\<rparr>], m2))"

record 'w bpe_state =
  words :: "'w list"
  symtab :: symbols
  pair_to_word_indices :: pair_index
  merges :: "MergeRule list"
  iteration :: int

datatype 's step = Break 's | Continue 's

definition merge_step ::
  "('a WordEntry_scheme \<Rightarrow> int) \<Rightarrow> ('a WordEntry_scheme list \<Rightarrow> string \<Rightarrow> int \<Rightarrow> int)
     \<Rightarrow> 'a WordEntry_scheme bpe_state \<Rightarrow> 'a WordEntry_scheme bpe_state step" where
  "merge_step wt rf s =
     (let it = iteration s + 1;
          best = find_best wt (words s) (pair_to_word_indices s);
          best_pair = fst best; best_freq = snd best
      in if best_freq < 2 then Break (s\<lparr>iteration := it\<rparr>)
         else
           (let new_token_str = id_to_token (symtab s) ! nat (fst best_pair)
                                  @ id_to_token (symtab s) ! nat (snd best_pair);
                gt = get_token_id new_token_str (symtab s);
                new_token_id = fst gt;
                rule = \<lparr>merge_pair = best_pair, new_token = new_token_id,
                        frequency = rf (words s) new_token_str best_freq\<rparr>;
                ia = index_at best_pair (pair_to_word_indices s);
                affected_words = snd ia;
                wm = fold (update_word best_pair new_token_id) affected_words (words s, fst ia)
            in Continue \<lparr>words = fst wm, symtab = snd gt,
                         pair_to_word_indices = AList.delete best_pair (snd wm),
                         merges = merges s @ [rule], iteration = it\<rparr>))"

partial_function (option) merge_loop ::
  "('a WordEntry_scheme \<Rightarrow> int) \<Rightarrow> ('a WordEntry_scheme list \<Rightarrow> string \<Rightarrow> int \<Rightarrow> int)
     \<Rightarrow> 'a WordEntry_scheme bpe_state \<Rightarrow> 'a WordEntry_scheme bpe_state option" where
  "merge_loop wt rf s =
     (case merge_step wt rf s of Break s' \<Rightarrow> Some s' | Continue s' \<Rightarrow> merge_loop wt rf s')"

declare merge_loop.simps [code]

text \<open>\<open>k\<close> passes of the loop, each of which merges a pair.\<close>

fun iterations ::
  "('a WordEntry_scheme \<Rightarrow> int) \<Rightarrow> ('a WordEntry_scheme list \<Rightarrow> string \<Rightarrow> int \<Rightarrow> int)
     \<Rightarrow> nat \<Rightarrow> 'a WordEntry_scheme bpe_state \<Rightarrow> 'a WordEntry_scheme bpe_state option" where
  "iterations wt rf 0 s = Some s"
| "iterations wt rf (Suc k) s =
     (case merge_step wt rf s of Break s' \<Rightarrow> None | Continue s' \<Rightarrow> iterations wt rf k s')"

section \<open>Reading the corpus\<close>

text \<open>
  The input file is the list of its lines (what \<^verbatim>\<open>getline\<close> returns). Two things end a run
  abnormally and are values of \<open>error\<close>: the \<^verbatim>\<open>std::range_error\<close> that
  \<^verbatim>\<open>converter.from_bytes\<close> throws on a byte sequence that is not UTF-8, which no trainer
  catches, and an index beyond the size of a \<^verbatim>\<open>vector\<close>. A line written to \<^verbatim>\<open>cerr\<close> is a
  \<open>diag\<close>.

  The library calls are modelled by what they do in the classic locale: \<^verbatim>\<open>iss >> word_str\<close>
  skips white space and takes the characters up to the next white space, failing when there is
  none; \<^verbatim>\<open>iss >> tf\<close> skips white space and takes an optional sign and decimal digits, failing
  without a digit or outside the range of \<^verbatim>\<open>int\<close> (digit grouping of the locale is left
  out); \<^verbatim>\<open>from_bytes\<close> followed by \<^verbatim>\<open>to_bytes\<close> of each wide character cuts a well-formed
  UTF-8 string into the byte strings of its code points. A string that is not well-formed
  UTF-8 is taken as the error; that includes a truncated last sequence and an encoded
  surrogate, on which the implementations of the library differ.
\<close>

datatype error = RangeError | OutOfRange

datatype diag = ReadError string

definition isspace :: "char \<Rightarrow> bool" where
  "isspace c = (c = CHR '' '' \<or> (9 \<le> (of_char c :: nat) \<and> (of_char c :: nat) \<le> 13))"

definition isdigit :: "char \<Rightarrow> bool" where
  "isdigit c = (48 \<le> (of_char c :: nat) \<and> (of_char c :: nat) \<le> 57)"

definition read_word :: "string \<Rightarrow> (string \<times> string) option" where
  "read_word s =
     (let r = dropWhile isspace s;
          w = takeWhile (\<lambda>c. \<not> isspace c) r
      in if w = [] then None else Some (w, dropWhile (\<lambda>c. \<not> isspace c) r))"

definition read_int :: "string \<Rightarrow> (int \<times> string) option" where
  "read_int s =
     (let r = dropWhile isspace s;
          neg = (r \<noteq> [] \<and> hd r = CHR ''-'');
          r1 = (if r \<noteq> [] \<and> (hd r = CHR ''-'' \<or> hd r = CHR ''+'') then tl r else r);
          ds = takeWhile isdigit r1;
          v = foldl (\<lambda>a c. 10 * a + (int (of_char c) - 48)) 0 ds;
          v' = (if neg then - v else v)
      in if ds = [] \<or> v' < - 2147483648 \<or> 2147483647 < v' then None
         else Some (v', dropWhile isdigit r1))"

definition is_cont :: "char \<Rightarrow> bool" where
  "is_cont c = (128 \<le> (of_char c :: nat) \<and> (of_char c :: nat) < 192)"

definition conts :: "nat \<Rightarrow> string \<Rightarrow> bool" where
  "conts k cs = (k \<le> length cs \<and> list_all is_cont (take k cs))"

text \<open>The number of bytes of the code point that starts with the byte \<open>c\<close>, followed by \<open>cs\<close>.\<close>

definition utf8_seq_len :: "char \<Rightarrow> string \<Rightarrow> nat option" where
  "utf8_seq_len c cs =
     (let b = (of_char c :: nat) in
      if b < 128 then Some 1
      else if 194 \<le> b \<and> b < 224 then (if conts 1 cs then Some 2 else None)
      else if 224 \<le> b \<and> b < 240 then
        (if conts 2 cs \<and> \<not> (b = 224 \<and> (of_char (hd cs) :: nat) < 160)
            \<and> \<not> (b = 237 \<and> 160 \<le> (of_char (hd cs) :: nat))
         then Some 3 else None)
      else if 240 \<le> b \<and> b < 245 then
        (if conts 3 cs \<and> \<not> (b = 240 \<and> (of_char (hd cs) :: nat) < 144)
            \<and> \<not> (b = 244 \<and> 144 \<le> (of_char (hd cs) :: nat))
         then Some 4 else None)
      else None)"

fun utf8_chars :: "string \<Rightarrow> string list option" where
  "utf8_chars [] = Some []"
| "utf8_chars (c # cs) =
     (case utf8_seq_len c cs of
        None \<Rightarrow> None
      | Some k \<Rightarrow> map_option ((#) (c # take (k - 1) cs)) (utf8_chars (drop (k - 1) cs)))"

definition tokenize :: "string list \<Rightarrow> symbols \<Rightarrow> int list \<times> symbols" where
  "tokenize cps tab =
     fold (\<lambda>token acc. (let r = get_token_id token (snd acc) in (fst acc @ [fst r], snd r)))
          cps ([], tab)"

record 'w load_state =
  l_words :: "'w list"
  l_symtab :: symbols
  l_cerr :: "diag list"
  total_words :: int

definition parse_word_tf_df :: "string \<Rightarrow> (string \<times> int \<times> int) option" where
  "parse_word_tf_df line =
     (case read_word line of
        None \<Rightarrow> None
      | Some wr \<Rightarrow>
          (case read_int (snd wr) of
             None \<Rightarrow> None
           | Some tr \<Rightarrow>
               (case read_int (snd tr) of
                  None \<Rightarrow> None
                | Some dr \<Rightarrow> Some (fst wr, fst tr, fst dr))))"

definition bpe_read_line :: "string \<Rightarrow> WordEntryTF load_state \<Rightarrow> error + WordEntryTF load_state" where
  "bpe_read_line line st =
     (if line = [] then Inr st
      else case parse_word_tf_df line of
        None \<Rightarrow> Inr (st\<lparr>l_cerr := l_cerr st @ [ReadError line]\<rparr>)
      | Some (word_str, tf_v, df_v) \<Rightarrow>
          (case utf8_chars word_str of
             None \<Rightarrow> Inl RangeError
           | Some wide_word \<Rightarrow>
               (let tk = tokenize wide_word (l_symtab st);
                    entry = \<lparr>tokens = fst tk, pairSet = compute_pairs (fst tk), tf = tf_v, df = df_v\<rparr>
                in Inr (st\<lparr>l_words := l_words st @ [entry], l_symtab := snd tk,
                          total_words := total_words st + 1\<rparr>))))"

definition bpes_read_line :: "string \<Rightarrow> WordEntryOrig load_state \<Rightarrow> error + WordEntryOrig load_state" where
  "bpes_read_line line st =
     (if line = [] then Inr st
      else case read_word line of
        None \<Rightarrow> Inr (st\<lparr>l_cerr := l_cerr st @ [ReadError line]\<rparr>)
      | Some (word_str, rest) \<Rightarrow>
          (case utf8_chars word_str of
             None \<Rightarrow> Inl RangeError
           | Some wide_word \<Rightarrow>
               (let tk = tokenize wide_word (l_symtab st);
                    entry = \<lparr>tokens = fst tk, pairSet = compute_pairs (fst tk), original = word_str\<rparr>
                in Inr (st\<lparr>l_words := l_words st @ [entry], l_symtab := snd tk,
                          total_words := total_words st + 1\<rparr>))))"

fun read_lines :: "(string \<Rightarrow> 's \<Rightarrow> error + 's) \<Rightarrow> string list \<Rightarrow> 's \<Rightarrow> error + 's" where
  "read_lines f [] st = Inr st"
| "read_lines f (line # ls) st =
     (case f line st of Inl e \<Rightarrow> Inl e | Inr st' \<Rightarrow> read_lines f ls st')"

definition load_init :: "'w load_state" where
  "load_init = \<lparr>l_words = [], l_symtab = \<lparr>token_to_id = Map.empty, id_to_token = []\<rparr>,
                l_cerr = [], total_words = 0\<rparr>"

definition build_index :: "'a WordEntry_scheme list \<Rightarrow> pair_index" where
  "build_index ws =
     fold (\<lambda>i m. fold (\<lambda>p m. index_insert p i m) (pairSet (ws ! i)) m) [0..<length ws] []"

definition bpe_load :: "string list \<Rightarrow> error + WordEntryTF load_state" where
  "bpe_load lines = read_lines bpe_read_line lines load_init"

definition bpes_load :: "string list \<Rightarrow> error + WordEntryOrig load_state" where
  "bpes_load lines = read_lines bpes_read_line lines load_init"

text \<open>The state at the head of the merge loop: the pair index built from the loaded words.\<close>

definition loop_start :: "'a WordEntry_scheme load_state \<Rightarrow> 'a WordEntry_scheme bpe_state" where
  "loop_start st = \<lparr>words = l_words st, symtab = l_symtab st,
                     pair_to_word_indices = build_index (l_words st),
                     merges = [], iteration = 0\<rparr>"

section \<open>Counting a token in the original corpus\<close>

text \<open>
  \<^verbatim>\<open>count_occurrences\<close> of \<^verbatim>\<open>src/bpes/bpe.cpp\<close> restarts \<^verbatim>\<open>str.find(sub, pos)\<close> one
  position after each match: it counts the positions of \<open>str\<close> at which \<open>sub\<close> starts.
\<close>

fun count_occurrences :: "string \<Rightarrow> string \<Rightarrow> int" where
  "count_occurrences [] sub = 0"
| "count_occurrences (c # cs) sub =
     (if sub = [] then 0
      else (if prefix sub (c # cs) then 1 else 0) + count_occurrences cs sub)"

text \<open>
  The suffix automaton of \<^verbatim>\<open>src/bpes/bpe_sa.cpp\<close>. \<^verbatim>\<open>st\<close> is a vector: a state is its
  index, and writing to the state at \<^verbatim>\<open>sz++\<close> or at index 0 needs that index below the size
  of the vector. The two \<^verbatim>\<open>for\<close> loops of \<^verbatim>\<open>extend\<close> follow suffix links and are partial
  functions.
\<close>

record SAState =
  len :: int
  link :: int
  next_sa :: "char \<rightharpoonup> int"
  occ :: int

record automaton =
  st_sa :: "SAState list"
  last_sa :: int

definition in_range :: "'a list \<Rightarrow> int \<Rightarrow> bool" where
  "in_range xs i = (0 \<le> i \<and> nat i < length xs)"

partial_function (option) extend_loop1 ::
  "char \<Rightarrow> int \<Rightarrow> SAState list \<Rightarrow> int \<Rightarrow> (SAState list \<times> int) option" where
  "extend_loop1 c cur st p =
     (if p \<noteq> - 1 \<and> next_sa (st ! nat p) c = None
      then extend_loop1 c cur (st[nat p := (st ! nat p)\<lparr>next_sa := (next_sa (st ! nat p))(c \<mapsto> cur)\<rparr>])
             (link (st ! nat p))
      else Some (st, p))"

definition map_at :: "('k \<rightharpoonup> int) \<Rightarrow> 'k \<Rightarrow> int \<times> ('k \<rightharpoonup> int)" where
  "map_at f k = (case f k of None \<Rightarrow> (0, f(k \<mapsto> 0)) | Some v \<Rightarrow> (v, f))"

partial_function (option) extend_loop2 ::
  "char \<Rightarrow> int \<Rightarrow> int \<Rightarrow> SAState list \<Rightarrow> int \<Rightarrow> (SAState list \<times> int) option" where
  "extend_loop2 c q clone st p =
     (if p = - 1 then Some (st, p)
      else if fst (map_at (next_sa (st ! nat p)) c) = q
      then extend_loop2 c q clone
             (st[nat p := (st ! nat p)\<lparr>next_sa := (next_sa (st ! nat p))(c \<mapsto> clone)\<rparr>])
             (link (st ! nat p))
      else Some (st[nat p := (st ! nat p)\<lparr>next_sa := snd (map_at (next_sa (st ! nat p)) c)\<rparr>], p))"

declare extend_loop1.simps [code] extend_loop2.simps [code]

definition extend_split ::
  "char \<Rightarrow> int \<Rightarrow> int \<Rightarrow> int \<Rightarrow> int \<Rightarrow> SAState list
     \<Rightarrow> (error + SAState list \<times> int \<times> int) option" where
  "extend_split c sz1 cur p q st3 =
     (let clone = sz1; sz2 = sz1 + 1
      in if \<not> in_range st3 clone then Some (Inl OutOfRange)
         else
           (let st4 = st3[nat clone := (st3 ! nat clone)
                        \<lparr>len := len (st3 ! nat p) + 1, link := link (st3 ! nat q),
                         next_sa := next_sa (st3 ! nat q), occ := 0\<rparr>]
            in case extend_loop2 c q clone st4 p of
                 None \<Rightarrow> None
               | Some r \<Rightarrow>
                   (let st5 = fst r;
                        st6 = st5[nat cur := (st5 ! nat cur)\<lparr>link := clone\<rparr>];
                        st7 = st6[nat q := (st6 ! nat q)\<lparr>link := link (st6 ! nat cur)\<rparr>]
                    in Some (Inr (st7, sz2, cur)))))"

definition extend ::
  "char \<Rightarrow> int \<Rightarrow> int \<Rightarrow> SAState list \<Rightarrow> (error + SAState list \<times> int \<times> int) option" where
  "extend c sz lst st0 =
     (let cur = sz; sz1 = sz + 1
      in if \<not> in_range st0 cur then Some (Inl OutOfRange)
         else
           (let st1 = st0[nat cur := (st0 ! nat cur)\<lparr>len := len (st0 ! nat lst) + 1, occ := 1\<rparr>]
            in case extend_loop1 c cur st1 lst of
                 None \<Rightarrow> None
               | Some r \<Rightarrow>
                   (let st2 = fst r; p = snd r
                    in if p = - 1
                       then Some (Inr (st2[nat cur := (st2 ! nat cur)\<lparr>link := 0\<rparr>], sz1, cur))
                       else
                         (let q = fst (map_at (next_sa (st2 ! nat p)) c);
                              st3 = st2[nat p := (st2 ! nat p)\<lparr>next_sa := snd (map_at (next_sa (st2 ! nat p)) c)\<rparr>]
                          in if len (st3 ! nat p) + 1 = len (st3 ! nat q)
                             then Some (Inr (st3[nat cur := (st3 ! nat cur)\<lparr>link := q\<rparr>], sz1, cur))
                             else extend_split c sz1 cur p q st3))))"

fun extend_all ::
  "string \<Rightarrow> int \<Rightarrow> int \<Rightarrow> SAState list \<Rightarrow> (error + SAState list \<times> int \<times> int) option" where
  "extend_all [] sz lst st0 = Some (Inr (st0, sz, lst))"
| "extend_all (c # cs) sz lst st0 =
     (case extend c sz lst st0 of
        None \<Rightarrow> None
      | Some (Inl e) \<Rightarrow> Some (Inl e)
      | Some (Inr (st1, sz1, lst1)) \<Rightarrow> extend_all cs sz1 lst1 st1)"

definition propagate :: "nat \<Rightarrow> SAState list \<Rightarrow> SAState list" where
  "propagate i st0 =
     (if link (st0 ! i) \<noteq> - 1
      then st0[nat (link (st0 ! i)) :=
                 (st0 ! nat (link (st0 ! i)))\<lparr>occ := occ (st0 ! nat (link (st0 ! i))) + occ (st0 ! i)\<rparr>]
      else st0)"

definition SuffixAutomaton :: "string \<Rightarrow> (error + automaton) option" where
  "SuffixAutomaton s =
     (let n = length s;
          st0 = replicate (2 * n) \<lparr>len = 0, link = 0, next_sa = Map.empty, occ = 0\<rparr>
      in if \<not> in_range st0 0 then Some (Inl OutOfRange)
         else
           (case extend_all s 1 0 (st0[0 := (st0 ! 0)\<lparr>len := 0, link := - 1, occ := 0\<rparr>]) of
              None \<Rightarrow> None
            | Some (Inl e) \<Rightarrow> Some (Inl e)
            | Some (Inr (st1, sz, lst)) \<Rightarrow>
                (let st2 = take (nat sz) st1;
                     order = sort_key (\<lambda>a. - len (st2 ! a)) [0..<nat sz];
                     st3 = fold propagate [0..<nat sz] st2
                 in Some (Inr \<lparr>st_sa = st3, last_sa = lst\<rparr>))))"

fun countOccurrences_from :: "SAState list \<Rightarrow> int \<Rightarrow> string \<Rightarrow> int" where
  "countOccurrences_from sts cur [] = occ (sts ! nat cur)"
| "countOccurrences_from sts cur (c # pattern) =
     (case next_sa (sts ! nat cur) c of
        None \<Rightarrow> 0
      | Some nx \<Rightarrow> countOccurrences_from sts nx pattern)"

definition countOccurrences :: "automaton \<Rightarrow> string \<Rightarrow> int" where
  "countOccurrences a pattern = countOccurrences_from (st_sa a) 0 pattern"

definition sa_count :: "string \<Rightarrow> string \<Rightarrow> (error + int) option" where
  "sa_count corpus pattern =
     (case SuffixAutomaton corpus of
        None \<Rightarrow> None
      | Some (Inl e) \<Rightarrow> Some (Inl e)
      | Some (Inr a) \<Rightarrow> Some (Inr (countOccurrences a pattern)))"

section \<open>The three programs\<close>

text \<open>
  What a run leaves: the exit code, the lines of the token file and of the merge file (without
  their header lines) and the diagnostics on \<^verbatim>\<open>cerr\<close>. The input file and the two output
  files are taken as opened.
\<close>

record run_output =
  exit_code :: int
  tokens_file :: "(string \<times> int) list"
  merges_file :: "(string \<times> string \<times> string \<times> int) list"
  cerr :: "diag list"

definition merge_line :: "string list \<Rightarrow> MergeRule \<Rightarrow> string \<times> string \<times> string \<times> int" where
  "merge_line names rule =
     (names ! nat (fst (merge_pair rule)), names ! nat (snd (merge_pair rule)),
      names ! nat (new_token rule), frequency rule)"

text \<open>The weight of a word in a pair's frequency, and the number stored in a merge rule.\<close>

definition unit_weight :: "'a WordEntry_scheme \<Rightarrow> int" where
  "unit_weight w = 1"

definition bpe_rf :: "WordEntryTF list \<Rightarrow> string \<Rightarrow> int \<Rightarrow> int" where
  "bpe_rf ws new_token_str best_freq = best_freq"

definition bpes_rf :: "WordEntryOrig list \<Rightarrow> string \<Rightarrow> int \<Rightarrow> int" where
  "bpes_rf ws new_token_str best_freq =
     fold (\<lambda>w original_freq. int32 (original_freq + count_occurrences (original w) new_token_str))
          ws 0"

definition sa_rf :: "automaton \<Rightarrow> WordEntryOrig list \<Rightarrow> string \<Rightarrow> int \<Rightarrow> int" where
  "sa_rf a ws new_token_str best_freq = countOccurrences a new_token_str"

definition bpe_final_frequencies :: "WordEntryTF list \<Rightarrow> (int \<times> int) list" where
  "bpe_final_frequencies ws =
     fold (\<lambda>word ff.
             fold (\<lambda>token_id ff.
                     AList.update token_id
                       (int32 ((case map_of ff token_id of None \<Rightarrow> 0 | Some v \<Rightarrow> v) + tf word))
                       ff)
                  (tokens word) ff)
          ws []"

definition original_frequencies :: "(string \<Rightarrow> int) \<Rightarrow> string list \<Rightarrow> (string \<times> int) list" where
  "original_frequencies count names =
     filter (\<lambda>kv. 0 < snd kv) (map (\<lambda>token_str. (token_str, count token_str)) names)"

definition bpe_main :: "string list \<Rightarrow> (error + run_output) option" where
  "bpe_main lines =
     (case bpe_load lines of
        Inl e \<Rightarrow> Some (Inl e)
      | Inr st \<Rightarrow>
          (case merge_loop tf bpe_rf (loop_start st) of
             None \<Rightarrow> None
           | Some s \<Rightarrow>
               Some (Inr \<lparr>exit_code = 0,
                          tokens_file = map (\<lambda>kv. (id_to_token (symtab s) ! nat (fst kv), snd kv))
                                          (bpe_final_frequencies (words s)),
                          merges_file = map (merge_line (id_to_token (symtab s))) (merges s),
                          cerr = l_cerr st\<rparr>)))"

definition bpes_main :: "string list \<Rightarrow> (error + run_output) option" where
  "bpes_main lines =
     (case bpes_load lines of
        Inl e \<Rightarrow> Some (Inl e)
      | Inr st \<Rightarrow>
          (case merge_loop unit_weight bpes_rf (loop_start st) of
             None \<Rightarrow> None
           | Some s \<Rightarrow>
               Some (Inr \<lparr>exit_code = 0,
                          tokens_file = original_frequencies
                                          (\<lambda>token_str. bpes_rf (words s) token_str 0) (id_to_token (symtab s)),
                          merges_file = map (merge_line (id_to_token (symtab s))) (merges s),
                          cerr = l_cerr st\<rparr>)))"

definition corpus_of :: "WordEntryOrig list \<Rightarrow> string" where
  "corpus_of ws = fold (\<lambda>w corpus. corpus @ original w @ ''#'') ws []"

definition bpe_sa_main :: "string list \<Rightarrow> (error + run_output) option" where
  "bpe_sa_main lines =
     (case bpes_load lines of
        Inl e \<Rightarrow> Some (Inl e)
      | Inr st \<Rightarrow>
          (case SuffixAutomaton (corpus_of (l_words st)) of
             None \<Rightarrow> None
           | Some (Inl e) \<Rightarrow> Some (Inl e)
           | Some (Inr a) \<Rightarrow>
               (case merge_loop unit_weight (sa_rf a) (loop_start st) of
                  None \<Rightarrow> None
                | Some s \<Rightarrow>
                    Some (Inr \<lparr>exit_code = 0,
                               tokens_file = original_frequencies (countOccurrences a)
                                               (id_to_token (symtab s)),
                               merges_file = map (merge_line (id_to_token (symtab s))) (merges s),
                               cerr = l_cerr st\<rparr>))))"

text \<open>
  The state of a trainer after \<open>k\<close> passes of its merge loop that all merged a pair
  (\<open>None\<close> when the run does not get that far).
\<close>

definition bpe_after :: "nat \<Rightarrow> string list \<Rightarrow> WordEntryTF bpe_state option" where
  "bpe_after k lines =
     (case bpe_load lines of
        Inl e \<Rightarrow> None
      | Inr st \<Rightarrow> iterations tf bpe_rf k (loop_start st))"

definition bpes_after :: "nat \<Rightarrow> string list \<Rightarrow> WordEntryOrig bpe_state option" where
  "bpes_after k lines =
     (case bpes_load lines of
        Inl e \<Rightarrow> None
      | Inr st \<Rightarrow> iterations unit_weight bpes_rf k (loop_start st))"

definition sa_of :: "string list \<Rightarrow> automaton option" where
  "sa_of lines =
     (case bpes_load lines of
        Inl e \<Rightarrow> None
      | Inr st \<Rightarrow>
          (case SuffixAutomaton (corpus_of (l_words st)) of
             Some (Inr a) \<Rightarrow> Some a
           | _ \<Rightarrow> None))"

definition bpe_sa_after :: "nat \<Rightarrow> string list \<Rightarrow> WordEntryOrig bpe_state option" where
  "bpe_sa_after k lines =
     (case bpes_load lines of
        Inl e \<Rightarrow> None
      | Inr st \<Rightarrow>
          (case sa_of lines of
             None \<Rightarrow> None
           | Some a \<Rightarrow> iterations unit_weight (sa_rf a) k (loop_start st)))"

section \<open>The linked-list trainer\<close>

text \<open>
  \<^verbatim>\<open>src/bpes/bpe2.cpp\<close> keeps the whole corpus in one doubly linked list of nodes, one node
  for each byte of a line and a spacer node (token 0) after each line; the last spacer is
  dropped. A pointer to a node is the number of the node in the order of allocation, and the
  heap is the \<^verbatim>\<open>store\<close>, a function from these numbers to nodes, so that two pointers to one
  node see the same updates. A node flagged \<^verbatim>\<open>removed\<close> stays in the store, as the program
  does not free it before the end. The pair map is an association list; the length of an
  occurrence list is taken exact, which only a list of more than two thousand million
  occurrences would not be.
\<close>

record Node =
  token :: int
  prev :: "nat option"
  next_nd :: "nat option"
  removed :: bool

record PairData =
  freq :: int
  occ_pd :: "nat list"

type_synonym PairMap = "(token_pair \<times> PairData) list"

record bpe2_state =
  store :: "nat \<Rightarrow> Node"
  n_nodes :: nat
  head :: "nat option"
  tail :: "nat option"
  symtab2 :: symbols
  pairMap :: PairMap

definition new_Node :: "int \<Rightarrow> bpe2_state \<Rightarrow> nat \<times> bpe2_state" where
  "new_Node t s =
     (n_nodes s,
      s\<lparr>store := (store s)(n_nodes s := \<lparr>token = t, prev = None, next_nd = None, removed = False\<rparr>),
        n_nodes := n_nodes s + 1\<rparr>)"

definition appendNode :: "nat \<Rightarrow> bpe2_state \<Rightarrow> bpe2_state" where
  "appendNode node s =
     (case head s of
        None \<Rightarrow> s\<lparr>head := Some node, tail := Some node\<rparr>
      | Some h \<Rightarrow>
          (case tail s of
             None \<Rightarrow> s
           | Some t \<Rightarrow>
               (let st1 = (store s)(t := (store s t)\<lparr>next_nd := Some node\<rparr>);
                    st2 = st1(node := (st1 node)\<lparr>prev := Some t\<rparr>)
                in s\<lparr>store := st2, tail := Some node\<rparr>)))"

definition addOccurrence :: "PairMap \<Rightarrow> token_pair \<Rightarrow> nat \<Rightarrow> PairMap" where
  "addOccurrence pmap p node =
     (let d = (case map_of pmap p of None \<Rightarrow> \<lparr>freq = 0, occ_pd = []\<rparr> | Some d \<Rightarrow> d);
          vec = occ_pd d @ [node]
      in AList.update p \<lparr>freq = int (length vec), occ_pd = vec\<rparr> pmap)"

definition removeOccurrence :: "PairMap \<Rightarrow> token_pair \<Rightarrow> nat \<Rightarrow> PairMap" where
  "removeOccurrence pmap p node =
     (case map_of pmap p of
        None \<Rightarrow> pmap
      | Some d \<Rightarrow>
          (let vec = removeAll node (occ_pd d)
           in if vec = [] then AList.delete p pmap
              else AList.update p \<lparr>freq = int (length vec), occ_pd = vec\<rparr> pmap))"

partial_function (option) buildPairMap_loop ::
  "(nat \<Rightarrow> Node) \<Rightarrow> PairMap \<Rightarrow> nat option \<Rightarrow> PairMap option" where
  "buildPairMap_loop h pmap cur =
     (case cur of
        None \<Rightarrow> Some pmap
      | Some c \<Rightarrow>
          (case next_nd (h c) of
             None \<Rightarrow> Some pmap
           | Some nx \<Rightarrow>
               buildPairMap_loop h
                 (if token (h c) \<noteq> 0 \<and> token (h nx) \<noteq> 0
                  then addOccurrence pmap (token (h c), token (h nx)) c else pmap)
                 (Some nx)))"

declare buildPairMap_loop.simps [code]

definition buildPairMap :: "bpe2_state \<Rightarrow> bpe2_state option" where
  "buildPairMap s = map_option (\<lambda>pm. s\<lparr>pairMap := pm\<rparr>) (buildPairMap_loop (store s) [] (head s))"

text \<open>The body of \<^verbatim>\<open>for (char c : line)\<close> and the spacer after the word.\<close>

definition add_char :: "char \<Rightarrow> bpe2_state \<Rightarrow> bpe2_state" where
  "add_char c s =
     (let gt = get_token_id [c] (symtab2 s);
          nn = new_Node (fst gt) (s\<lparr>symtab2 := snd gt\<rparr>)
      in appendNode (fst nn) (snd nn))"

definition add_line :: "string \<Rightarrow> bpe2_state \<Rightarrow> bpe2_state" where
  "add_line line s =
     (if line = [] then s
      else (let s1 = fold add_char line s; nn = new_Node 0 s1 in appendNode (fst nn) (snd nn)))"

definition drop_last_spacer :: "bpe2_state \<Rightarrow> bpe2_state" where
  "drop_last_spacer s =
     (case tail s of
        None \<Rightarrow> s
      | Some t \<Rightarrow>
          if token (store s t) = 0
          then (case prev (store s t) of
                  None \<Rightarrow> s\<lparr>tail := None, head := None\<rparr>
                | Some t' \<Rightarrow> s\<lparr>tail := Some t', store := (store s)(t' := (store s t')\<lparr>next_nd := None\<rparr>)\<rparr>)
          else s)"

definition bpe2_init :: bpe2_state where
  "bpe2_init = \<lparr>store = (\<lambda>a. \<lparr>token = 0, prev = None, next_nd = None, removed = False\<rparr>),
                n_nodes = 0, head = None, tail = None,
                symtab2 = \<lparr>token_to_id = [''<spacer>'' \<mapsto> 0], id_to_token = [''<spacer>'']\<rparr>,
                pairMap = []\<rparr>"

definition bpe2_start :: "string list \<Rightarrow> bpe2_state option" where
  "bpe2_start lines = buildPairMap (drop_last_spacer (fold add_line lines bpe2_init))"

definition find_bestPair :: "PairMap \<Rightarrow> token_pair \<times> int" where
  "find_bestPair pm =
     fold (\<lambda>entry best. if freq (snd entry) > snd best then (fst entry, freq (snd entry)) else best)
          pm ((- 1, - 1), 0)"

definition splice :: "token_pair \<Rightarrow> int \<Rightarrow> nat \<Rightarrow> nat \<Rightarrow> (nat \<Rightarrow> Node) \<Rightarrow> (nat \<Rightarrow> Node)" where
  "splice bestPair newTokenId left right h =
     (let h1 = h(left := (h left)\<lparr>token := newTokenId\<rparr>);
          after = next_nd (h1 right);
          h2 = h1(left := (h1 left)\<lparr>next_nd := after\<rparr>);
          h3 = (case after of None \<Rightarrow> h2 | Some a \<Rightarrow> h2(a := (h2 a)\<lparr>prev := Some left\<rparr>))
      in h3(right := (h3 right)\<lparr>removed := True\<rparr>))"

definition update_left_pair :: "token_pair \<Rightarrow> int \<Rightarrow> nat \<Rightarrow> (nat \<Rightarrow> Node) \<Rightarrow> PairMap \<Rightarrow> PairMap" where
  "update_left_pair bestPair newTokenId left h pm =
     (case prev (h left) of
        None \<Rightarrow> pm
      | Some pv \<Rightarrow>
          if \<not> removed (h pv) \<and> token (h pv) \<noteq> 0 \<and> token (h left) \<noteq> 0
          then addOccurrence (removeOccurrence pm (token (h pv), fst bestPair) pv)
                 (token (h pv), newTokenId) pv
          else pm)"

definition update_right_pair ::
  "token_pair \<Rightarrow> int \<Rightarrow> nat \<Rightarrow> nat \<Rightarrow> (nat \<Rightarrow> Node) \<Rightarrow> PairMap \<Rightarrow> PairMap" where
  "update_right_pair bestPair newTokenId left right h pm =
     (case next_nd (h left) of
        None \<Rightarrow> pm
      | Some nx \<Rightarrow>
          if \<not> removed (h nx) \<and> token (h left) \<noteq> 0 \<and> token (h nx) \<noteq> 0
          then addOccurrence (removeOccurrence pm (snd bestPair, token (h nx)) right)
                 (newTokenId, token (h nx)) left
          else pm)"

definition process_occ ::
  "token_pair \<Rightarrow> int \<Rightarrow> nat \<Rightarrow> (nat \<Rightarrow> Node) \<times> PairMap \<Rightarrow> (nat \<Rightarrow> Node) \<times> PairMap" where
  "process_occ bestPair newTokenId left hp =
     (let h = fst hp; pm = snd hp
      in if removed (h left) then hp
         else case next_nd (h left) of
           None \<Rightarrow> hp
         | Some right \<Rightarrow>
             if removed (h right) then hp
             else if token (h left) \<noteq> fst bestPair \<or> token (h right) \<noteq> snd bestPair then hp
             else (let h' = splice bestPair newTokenId left right h;
                       pm1 = update_left_pair bestPair newTokenId left h' pm;
                       pm2 = update_right_pair bestPair newTokenId left right h' pm1
                   in (h', pm2)))"

definition pairMap_at :: "PairMap \<Rightarrow> token_pair \<Rightarrow> PairMap \<times> PairData" where
  "pairMap_at pm p =
     (case map_of pm p of
        None \<Rightarrow> (pm @ [(p, \<lparr>freq = 0, occ_pd = []\<rparr>)], \<lparr>freq = 0, occ_pd = []\<rparr>)
      | Some d \<Rightarrow> (pm, d))"

definition bpe2_step :: "bpe2_state \<Rightarrow> bpe2_state step" where
  "bpe2_step s =
     (let best = find_bestPair (pairMap s); bestPair = fst best; bestFreq = snd best
      in if bestFreq < 2 then Break s
         else
           (let newTokenStr = id_to_token (symtab2 s) ! nat (fst bestPair)
                                @ id_to_token (symtab2 s) ! nat (snd bestPair);
                gt = get_token_id newTokenStr (symtab2 s);
                newTokenId = fst gt;
                pa = pairMap_at (pairMap s) bestPair;
                occList = occ_pd (snd pa);
                hp = fold (process_occ bestPair newTokenId) occList (store s, fst pa)
            in Continue (s\<lparr>store := fst hp, symtab2 := snd gt,
                           pairMap := AList.delete bestPair (snd hp)\<rparr>)))"

partial_function (option) bpe2_loop :: "bpe2_state \<Rightarrow> bpe2_state option" where
  "bpe2_loop s = (case bpe2_step s of Break s' \<Rightarrow> Some s' | Continue s' \<Rightarrow> bpe2_loop s')"

declare bpe2_loop.simps [code]

text \<open>\<open>k\<close> passes of the loop of the linked-list trainer, each of which merges a pair.\<close>

fun bpe2_iterations :: "nat \<Rightarrow> bpe2_state \<Rightarrow> bpe2_state option" where
  "bpe2_iterations 0 s = Some s"
| "bpe2_iterations (Suc k) s =
     (case bpe2_step s of Break s' \<Rightarrow> None | Continue s' \<Rightarrow> bpe2_iterations k s')"

definition bpe2_after :: "nat \<Rightarrow> string list \<Rightarrow> bpe2_state option" where
  "bpe2_after k lines =
     (case bpe2_start lines of None \<Rightarrow> None | Some s \<Rightarrow> bpe2_iterations k s)"

section \<open>The properties\<close>

text \<open>
  \<open>adjacent_pairs\<close> lists the pairs of neighbours of a token sequence, and \<open>registered\<close>
  reads the pair index as a set of word indices per pair. \<open>index_exact\<close> is the consistency
  of the index with the words: every registered index is a word that holds the pair, and
  every pair of every word is registered for that word.
\<close>

definition registered :: "pair_index \<Rightarrow> token_pair \<Rightarrow> nat set" where
  "registered m p = (case map_of m p of None \<Rightarrow> {} | Some is \<Rightarrow> set is)"

definition adjacent_pairs :: "int list \<Rightarrow> token_pair list" where
  "adjacent_pairs ts = zip ts (tl ts)"

definition index_wf :: "pair_index \<Rightarrow> bool" where
  "index_wf m = (distinct (map fst m) \<and> (\<forall>p is. map_of m p = Some is \<longrightarrow> distinct is \<and> is \<noteq> []))"

definition index_tracks :: "'a WordEntry_scheme list \<Rightarrow> pair_index \<Rightarrow> bool" where
  "index_tracks ws m =
     (\<forall>p. registered m p = {i. i < length ws \<and> p \<in> set (adjacent_pairs (tokens (ws ! i)))})"

definition pairsets_ok :: "'a WordEntry_scheme list \<Rightarrow> bool" where
  "pairsets_ok ws = (\<forall>i<length ws. set (pairSet (ws ! i)) = set (adjacent_pairs (tokens (ws ! i))))"

definition symbols_ok :: "symbols \<Rightarrow> bool" where
  "symbols_ok tab =
     ((\<forall>s i. token_to_id tab s = Some i \<longleftrightarrow>
              (0 \<le> i \<and> nat i < length (id_to_token tab) \<and> id_to_token tab ! nat i = s))
      \<and> [] \<notin> set (id_to_token tab))"

definition valid_id :: "symbols \<Rightarrow> int \<Rightarrow> bool" where
  "valid_id tab t = (0 \<le> t \<and> nat t < length (id_to_token tab))"

definition tokens_valid :: "symbols \<Rightarrow> 'a WordEntry_scheme list \<Rightarrow> bool" where
  "tokens_valid tab ws = (\<forall>w \<in> set ws. \<forall>t \<in> set (tokens w). valid_id tab t)"

definition weighted_frequency ::
  "('a WordEntry_scheme \<Rightarrow> int) \<Rightarrow> 'a WordEntry_scheme list \<Rightarrow> token_pair \<Rightarrow> int" where
  "weighted_frequency wt ws p =
     sum_list (map (\<lambda>w. count_occurrences_in_word (tokens w) p * wt w) ws)"

definition total_tokens :: "'a WordEntry_scheme list \<Rightarrow> nat" where
  "total_tokens ws = sum_list (map (\<lambda>w. length (tokens w)) ws)"

definition state_inv :: "'a WordEntry_scheme bpe_state \<Rightarrow> bool" where
  "state_inv s =
     (symbols_ok (symtab s) \<and> tokens_valid (symtab s) (words s) \<and> pairsets_ok (words s)
      \<and> index_tracks (words s) (pair_to_word_indices s) \<and> index_wf (pair_to_word_indices s))"

definition index_exact :: "'a WordEntry_scheme list \<Rightarrow> pair_index \<Rightarrow> bool" where
  "index_exact ws m =
     ((\<forall>kv \<in> set m. \<forall>i \<in> set (snd kv).
         i < length ws \<and> fst kv \<in> set (adjacent_pairs (tokens (ws ! i))))
      \<and> (\<forall>i \<in> {0..<length ws}. \<forall>p \<in> set (adjacent_pairs (tokens (ws ! i))).
           \<exists>kv \<in> set m. fst kv = p \<and> i \<in> set (snd kv)))"

definition load_inv :: "'a WordEntry_scheme load_state \<Rightarrow> bool" where
  "load_inv st =
     (symbols_ok (l_symtab st) \<and> tokens_valid (l_symtab st) (l_words st) \<and> pairsets_ok (l_words st))"

text \<open>
  The number of occurrences of \<open>sub\<close> in \<open>str\<close>, overlapping ones included: the number of
  positions of \<open>str\<close> at which \<open>sub\<close> starts.
\<close>

definition occurrences :: "string \<Rightarrow> string \<Rightarrow> nat" where
  "occurrences str sub =
     length (filter (\<lambda>i. take (length sub) (drop i str) = sub) [0..<length str])"

text \<open>The values of a C++ \<^verbatim>\<open>int\<close>.\<close>

definition fits_int :: "int \<Rightarrow> bool" where
  "fits_int x = (- 2147483648 \<le> x \<and> x \<le> 2147483647)"

text \<open>No key of the pair map of the linked-list trainer holds the spacer, token 0.\<close>

definition no_spacer_pairs :: "PairMap \<Rightarrow> bool" where
  "no_spacer_pairs pm = (\<forall>p \<in> fst ` set pm. fst p \<noteq> 0 \<and> snd p \<noteq> 0)"

text \<open>
  The list that the loader of the linked-list trainer builds: the nodes \<open>0, ..., m - 1\<close> in
  the order of their allocation, each linked with the next.
\<close>

definition chain :: "bpe2_state \<Rightarrow> nat \<Rightarrow> bool" where
  "chain s m =
     (if m = 0 then head s = None \<and> tail s = None
      else head s = Some 0 \<and> tail s = Some (m - 1)
         \<and> (\<forall>i. Suc i < m \<longrightarrow> next_nd (store s i) = Some (Suc i))
         \<and> next_nd (store s (m - 1)) = None
         \<and> prev (store s 0) = None
         \<and> (\<forall>i. Suc i < m \<longrightarrow> prev (store s (Suc i)) = Some i))"

lemma set_uset_insert: "set (uset_insert x xs) = insert x (set xs)"
  by (auto simp: uset_insert_def)

lemma distinct_uset_insert: "distinct xs \<Longrightarrow> distinct (uset_insert x xs)"
  by (simp add: uset_insert_def)

lemma uset_insert_not_Nil: "uset_insert x xs \<noteq> []"
  by (auto simp: uset_insert_def)

lemma removeAll_Nil_iff: "removeAll i xs = [] \<longleftrightarrow> set xs \<subseteq> {i}"
  by (induction xs) auto

lemma registered_insert:
  "registered (index_insert p i m) q = (if q = p then insert i (registered m p) else registered m q)"
  by (auto simp: registered_def index_insert_def update_conv' set_uset_insert split: option.splits)

lemma registered_delete:
  "registered (AList.delete p m) q = (if q = p then {} else registered m q)"
  by (simp add: registered_def delete_conv')

lemma registered_remove:
  "registered (index_remove p i m) q = (if q = p then registered m p - {i} else registered m q)"
  by (auto simp: registered_def index_remove_def update_conv' delete_conv' Let_def removeAll_Nil_iff
           split: option.splits)

lemma index_wfD: "index_wf m \<Longrightarrow> map_of m p = Some is \<Longrightarrow> distinct is \<and> is \<noteq> []"
  unfolding index_wf_def by blast

lemma index_wf_update:
  "index_wf m \<Longrightarrow> distinct v \<Longrightarrow> v \<noteq> [] \<Longrightarrow> index_wf (AList.update p v m)"
  unfolding index_wf_def
  by (simp add: distinct_update update_conv' del: map_of_eq_Some_iff)

lemma index_wf_delete: "index_wf m \<Longrightarrow> index_wf (AList.delete p m)"
  unfolding index_wf_def
  by (simp add: distinct_delete delete_conv' del: map_of_eq_Some_iff)

lemma index_wf_insert: "index_wf m \<Longrightarrow> index_wf (index_insert p i m)"
proof -
  assume wf: "index_wf m"
  have "distinct (case map_of m p of None \<Rightarrow> [] | Some is \<Rightarrow> is)"
    using index_wfD[OF wf] by (auto split: option.splits)
  then show ?thesis
    unfolding index_insert_def
    by (intro index_wf_update wf distinct_uset_insert uset_insert_not_Nil)
qed

lemma index_wf_remove: "index_wf m \<Longrightarrow> index_wf (index_remove p i m)"
proof -
  assume wf: "index_wf m"
  show ?thesis
  proof (cases "map_of m p")
    case None
    then show ?thesis using wf by (simp add: index_remove_def)
  next
    case (Some "is")
    then have "distinct is" using index_wfD[OF wf] by blast
    then have "distinct (removeAll i is)" by (simp add: distinct_removeAll)
    then show ?thesis
      using Some wf by (simp add: index_remove_def Let_def index_wf_delete index_wf_update)
  qed
qed

lemma set_compute_pairs_acc:
  "set (compute_pairs_acc ts acc) = set acc \<union> set (adjacent_pairs ts)"
  by (induction ts acc rule: compute_pairs_acc.induct)
     (auto simp: adjacent_pairs_def set_uset_insert)

lemma set_compute_pairs: "set (compute_pairs ts) = set (adjacent_pairs ts)"
  by (simp add: compute_pairs_def set_compute_pairs_acc)

lemma distinct_compute_pairs_acc:
  "distinct acc \<Longrightarrow> distinct (compute_pairs_acc ts acc)"
  by (induction ts acc rule: compute_pairs_acc.induct) (auto simp: distinct_uset_insert)

lemma count_occurrences_nonneg: "0 \<le> count_occurrences_in_word ts p"
  by (induction ts p rule: count_occurrences_in_word.induct) auto

lemma count_occurrences_pos_iff:
  "0 < count_occurrences_in_word ts p \<longleftrightarrow> p \<in> set (adjacent_pairs ts)"
proof (induction ts p rule: count_occurrences_in_word.induct)
  case (1 a b ts p)
  have "0 \<le> count_occurrences_in_word (b # ts) p" by (rule count_occurrences_nonneg)
  with 1 show ?case by (cases p) (auto simp: adjacent_pairs_def)
qed (auto simp: adjacent_pairs_def)

lemma merge_absent: "p \<notin> set (adjacent_pairs ts) \<Longrightarrow> merge_pair_in_word ts p n = ts"
  by (induction ts p n rule: merge_pair_in_word.induct) (auto simp: adjacent_pairs_def)

lemma length_merge_le: "length (merge_pair_in_word ts p n) \<le> length ts"
  by (induction ts p n rule: merge_pair_in_word.induct) auto

lemma length_merge_less:
  "p \<in> set (adjacent_pairs ts) \<Longrightarrow> length (merge_pair_in_word ts p n) < length ts"
proof (induction ts p n rule: merge_pair_in_word.induct)
  case (1 a b ts p n)
  have "length (merge_pair_in_word ts p n) \<le> length ts" by (rule length_merge_le)
  with 1 show ?case by (cases p) (auto simp: adjacent_pairs_def)
qed (auto simp: adjacent_pairs_def)

lemma set_merge_subset: "set (merge_pair_in_word ts p n) \<subseteq> insert n (set ts)"
  by (induction ts p n rule: merge_pair_in_word.induct) auto

lemma hd_merge:
  "merge_pair_in_word ts p n \<noteq> [] \<Longrightarrow> hd (merge_pair_in_word ts p n) = n \<or> hd (merge_pair_in_word ts p n) = hd ts"
  by (induction ts p n rule: merge_pair_in_word.induct) auto

lemma merge_removes_pair:
  "n \<noteq> fst p \<Longrightarrow> n \<noteq> snd p \<Longrightarrow> p \<notin> set (adjacent_pairs (merge_pair_in_word ts p n))"
proof (induction ts p n rule: merge_pair_in_word.induct)
  case (1 a b ts p n)
  show ?case
  proof (cases "a = fst p \<and> b = snd p")
    case True
    with 1 show ?thesis
      by (cases "merge_pair_in_word ts p n") (auto simp: adjacent_pairs_def)
  next
    case False
    have ih: "p \<notin> set (adjacent_pairs (merge_pair_in_word (b # ts) p n))"
      using 1 False by simp
    have ne: "merge_pair_in_word (b # ts) p n \<noteq> []"
      by (cases ts) auto
    from hd_merge[OF ne] have "hd (merge_pair_in_word (b # ts) p n) = n \<or> hd (merge_pair_in_word (b # ts) p n) = b"
      by simp
    with ih False 1(3,4) ne show ?thesis
      by (cases "merge_pair_in_word (b # ts) p n"; cases p) (auto simp: adjacent_pairs_def)
  qed
qed (auto simp: adjacent_pairs_def)

lemma fold_remove_registered:
  "registered (fold (\<lambda>p m. if P p then index_remove p idx m else m) ps m) q =
     (if q \<in> set ps \<and> P q then registered m q - {idx} else registered m q)"
  by (induction ps arbitrary: m) (auto simp: registered_remove)

lemma fold_insert_registered:
  "registered (fold (\<lambda>p m. if P p then index_insert p idx m else m) ps m) q =
     (if q \<in> set ps \<and> P q then insert idx (registered m q) else registered m q)"
  by (induction ps arbitrary: m) (auto simp: registered_insert)

lemma fold_remove_wf:
  "index_wf m \<Longrightarrow> index_wf (fold (\<lambda>p m. if P p then index_remove p idx m else m) ps m)"
  by (induction ps arbitrary: m) (auto simp: index_wf_remove)

lemma fold_insert_wf:
  "index_wf m \<Longrightarrow> index_wf (fold (\<lambda>p m. if P p then index_insert p idx m else m) ps m)"
  by (induction ps arbitrary: m) (auto simp: index_wf_insert)

lemma update_word_words:
  "fst (update_word bp n idx (ws, m)) =
     ws[idx := (ws ! idx)\<lparr>tokens := merge_pair_in_word (tokens (ws ! idx)) bp n,
                          pairSet := compute_pairs (merge_pair_in_word (tokens (ws ! idx)) bp n)\<rparr>]"
  by (simp add: update_word_def Let_def)

lemma update_word_wf: "index_wf m \<Longrightarrow> index_wf (snd (update_word bp n idx (ws, m)))"
  by (simp add: update_word_def Let_def fold_insert_wf fold_remove_wf)

lemma update_word_pairsets:
  assumes "pairsets_ok ws"
  shows "pairsets_ok (fst (update_word bp n idx (ws, m)))"
  unfolding pairsets_ok_def update_word_words
proof (intro allI impI)
  fix i
  assume "i < length (ws[idx := (ws ! idx)\<lparr>tokens := merge_pair_in_word (tokens (ws ! idx)) bp n,
                          pairSet := compute_pairs (merge_pair_in_word (tokens (ws ! idx)) bp n)\<rparr>])"
  then have i: "i < length ws" by simp
  show "set (pairSet (ws[idx := (ws ! idx)\<lparr>tokens := merge_pair_in_word (tokens (ws ! idx)) bp n,
                          pairSet := compute_pairs (merge_pair_in_word (tokens (ws ! idx)) bp n)\<rparr>] ! i))
        = set (adjacent_pairs (tokens (ws[idx := (ws ! idx)\<lparr>tokens := merge_pair_in_word (tokens (ws ! idx)) bp n,
                          pairSet := compute_pairs (merge_pair_in_word (tokens (ws ! idx)) bp n)\<rparr>] ! i)))"
  proof (cases "i = idx")
    case True
    with i show ?thesis by (simp add: set_compute_pairs)
  next
    case False
    with i assms show ?thesis by (simp add: pairsets_ok_def)
  qed
qed

lemma update_word_tracks:
  assumes "idx < length ws" "pairsets_ok ws" "index_tracks ws m"
  shows "index_tracks (fst (update_word bp n idx (ws, m))) (snd (update_word bp n idx (ws, m)))"
proof -
  define nt where "nt = merge_pair_in_word (tokens (ws ! idx)) bp n"
  define ws' where "ws' = ws[idx := (ws ! idx)\<lparr>tokens := nt, pairSet := compute_pairs nt\<rparr>]"
  have old: "set (pairSet (ws ! idx)) = set (adjacent_pairs (tokens (ws ! idx)))"
    using assms(1,2) by (simp add: pairsets_ok_def)
  have reg: "registered m q = {i. i < length ws \<and> q \<in> set (adjacent_pairs (tokens (ws ! i)))}" for q
    using assms(3) unfolding index_tracks_def by blast
  have w: "fst (update_word bp n idx (ws, m)) = ws'"
    by (simp add: update_word_words ws'_def nt_def)
  have r: "registered (snd (update_word bp n idx (ws, m))) q =
      (if q \<in> set (adjacent_pairs nt) \<and> q \<notin> set (adjacent_pairs (tokens (ws ! idx)))
       then insert idx (registered m q)
       else if q \<in> set (adjacent_pairs (tokens (ws ! idx))) \<and> q \<notin> set (adjacent_pairs nt)
       then registered m q - {idx} else registered m q)" for q
    by (simp add: update_word_def Let_def fold_insert_registered fold_remove_registered
                   set_compute_pairs old nt_def)
  have t: "tokens (ws' ! i) = (if i = idx then nt else tokens (ws ! i))" if "i < length ws" for i
    using that by (simp add: ws'_def nth_list_update)
  have "registered (snd (update_word bp n idx (ws, m))) q
          = {i. i < length ws' \<and> q \<in> set (adjacent_pairs (tokens (ws' ! i)))}" for q
  proof -
    have l: "length ws' = length ws" by (simp add: ws'_def)
    show ?thesis
      unfolding r reg l using assms(1) t by (auto split: if_splits)
  qed
  then show ?thesis unfolding index_tracks_def w by blast
qed

lemma get_token_id_cases:
  assumes "symbols_ok tab"
  shows "valid_id (snd (get_token_id str tab)) (fst (get_token_id str tab))
       \<and> id_to_token (snd (get_token_id str tab)) ! nat (fst (get_token_id str tab)) = str
       \<and> (\<exists>ys. id_to_token (snd (get_token_id str tab)) = id_to_token tab @ ys)"
proof (cases "token_to_id tab str")
  case None
  then show ?thesis by (simp add: get_token_id_def valid_id_def Let_def)
next
  case (Some i)
  with assms have "0 \<le> i \<and> nat i < length (id_to_token tab) \<and> id_to_token tab ! nat i = str"
    unfolding symbols_ok_def by blast
  with Some show ?thesis by (simp add: get_token_id_def valid_id_def)
qed

lemma get_token_id_ok:
  assumes ok: "symbols_ok tab" and ne: "str \<noteq> []"
  shows "symbols_ok (snd (get_token_id str tab))"
proof (cases "token_to_id tab str")
  case (Some i)
  then show ?thesis using ok by (simp add: get_token_id_def)
next
  case None
  have iff: "\<And>s i. token_to_id tab s = Some i \<longleftrightarrow>
              (0 \<le> i \<and> nat i < length (id_to_token tab) \<and> id_to_token tab ! nat i = s)"
    using ok unfolding symbols_ok_def by blast
  have notin: "[] \<notin> set (id_to_token tab)" using ok unfolding symbols_ok_def by blast
  have fresh: "str \<notin> set (id_to_token tab)"
  proof
    assume "str \<in> set (id_to_token tab)"
    then obtain k where "k < length (id_to_token tab)" "id_to_token tab ! k = str"
      by (auto simp: in_set_conv_nth)
    then have "token_to_id tab str = Some (int k)" using iff[of str "int k"] by simp
    with None show False by simp
  qed
  define tab' where "tab' = \<lparr>token_to_id = (token_to_id tab)(str \<mapsto> int (length (id_to_token tab))),
                        id_to_token = id_to_token tab @ [str]\<rparr>"
  have eq: "snd (get_token_id str tab) = tab'"
    using None by (simp add: get_token_id_def Let_def tab'_def)
  have "token_to_id tab' s = Some i \<longleftrightarrow>
              (0 \<le> i \<and> nat i < length (id_to_token tab') \<and> id_to_token tab' ! nat i = s)" for s i
  proof (cases "s = str")
    case True
    show ?thesis
    proof (cases "nat i < length (id_to_token tab)")
      case True
      then have "id_to_token tab ! nat i \<in> set (id_to_token tab)" by simp
      with fresh have "id_to_token tab ! nat i \<noteq> str" by metis
      with True \<open>s = str\<close> show ?thesis by (auto simp: tab'_def nth_append)
    next
      case False
      with \<open>s = str\<close> show ?thesis by (auto simp: tab'_def nth_append)
    qed
  next
    case False
    then show ?thesis using iff[of s i] by (auto simp: tab'_def nth_append)
  qed
  moreover have "[] \<notin> set (id_to_token tab')" using notin ne by (auto simp: tab'_def)
  ultimately show ?thesis unfolding eq symbols_ok_def by blast
qed

lemma valid_id_mono:
  "valid_id tab t \<Longrightarrow> id_to_token tab' = id_to_token tab @ ys \<Longrightarrow> valid_id tab' t"
  by (simp add: valid_id_def)

lemma symbols_lookup:
  assumes "symbols_ok tab" "valid_id tab a"
  shows "token_to_id tab (id_to_token tab ! nat a) = Some a"
proof -
  have "\<forall>s i. token_to_id tab s = Some i \<longleftrightarrow>
              (0 \<le> i \<and> nat i < length (id_to_token tab) \<and> id_to_token tab ! nat i = s)"
    using assms(1) by (simp add: symbols_ok_def)
  then have "token_to_id tab (id_to_token tab ! nat a) = Some a \<longleftrightarrow>
              (0 \<le> a \<and> nat a < length (id_to_token tab) \<and> id_to_token tab ! nat a = id_to_token tab ! nat a)"
    by (rule allE[where x="id_to_token tab ! nat a"]) (erule allE[where x=a])
  with assms(2) show ?thesis by (simp add: valid_id_def)
qed

lemma symbols_distinct:
  assumes "symbols_ok tab" "valid_id tab a" "valid_id tab b"
    "id_to_token tab ! nat a = id_to_token tab ! nat b"
  shows "a = b"
proof -
  have "Some a = token_to_id tab (id_to_token tab ! nat a)"
    using symbols_lookup[OF assms(1,2)] by (rule sym)
  also have "\<dots> = token_to_id tab (id_to_token tab ! nat b)"
    by (simp only: assms(4))
  also have "\<dots> = Some b"
    by (rule symbols_lookup[OF assms(1,3)])
  finally show ?thesis by (simp only: option.inject)
qed

lemma symbols_nonempty:
  assumes "symbols_ok tab" "valid_id tab a"
  shows "id_to_token tab ! nat a \<noteq> []"
proof -
  have "id_to_token tab ! nat a \<in> set (id_to_token tab)"
    using assms(2) by (simp add: valid_id_def)
  moreover have "[] \<notin> set (id_to_token tab)"
    using assms(1) by (simp add: symbols_ok_def)
  ultimately show ?thesis by auto
qed

lemma new_token_fresh:
  assumes ok: "symbols_ok tab" and a: "valid_id tab a" and b: "valid_id tab b"
    and str: "str = id_to_token tab ! nat a @ id_to_token tab ! nat b"
  shows "fst (get_token_id str tab) \<noteq> a \<and> fst (get_token_id str tab) \<noteq> b"
proof -
  define n where "n = fst (get_token_id str tab)"
  define tab' where "tab' = snd (get_token_id str tab)"
  have sa: "id_to_token tab ! nat a \<noteq> []" and sb: "id_to_token tab ! nat b \<noteq> []"
    using symbols_nonempty[OF ok a] symbols_nonempty[OF ok b] by blast+
  from get_token_id_cases[OF ok, of str] obtain ys where
    s: "id_to_token tab' ! nat n = str"
    and ext: "id_to_token tab' = id_to_token tab @ ys"
    unfolding n_def tab'_def by blast
  have ea: "id_to_token tab' ! nat a = id_to_token tab ! nat a"
    using a ext by (simp add: valid_id_def nth_append)
  have eb: "id_to_token tab' ! nat b = id_to_token tab ! nat b"
    using b ext by (simp add: valid_id_def nth_append)
  have "str \<noteq> id_to_token tab ! nat a" using sb by (simp add: str)
  then have "n \<noteq> a" using s ea by auto
  have "str \<noteq> id_to_token tab ! nat b" using sa by (simp add: str)
  then have "n \<noteq> b" using s eb by auto
  from \<open>n \<noteq> a\<close> \<open>n \<noteq> b\<close> show ?thesis unfolding n_def by blast
qed

lemma fold_add_sum_list:
  "fold (\<lambda>x (acc::int). acc + f x) xs a = a + sum_list (map f xs)"
  by (induction xs arbitrary: a) auto

lemma int32_add_left: "int32 (int32 a + b) = int32 (a + b)"
  unfolding int32_def by (simp add: mod_simps algebra_simps)

lemma int32_add_right: "int32 (a + int32 b) = int32 (a + b)"
  unfolding int32_def by (simp add: mod_simps algebra_simps)

lemma int32_zero: "int32 0 = 0"
  by (simp add: int32_def)

lemma int32_in_range: "- 2147483648 \<le> x \<Longrightarrow> x \<le> 2147483647 \<Longrightarrow> int32 x = x"
  by (simp add: int32_def)

lemma int32_bounds: "- 2147483648 \<le> int32 x \<and> int32 x \<le> 2147483647"
proof -
  have "0 \<le> (x + 2147483648) mod 4294967296" "(x + 2147483648) mod 4294967296 < 4294967296"
    by simp_all
  then show ?thesis unfolding int32_def by linarith
qed

lemma fold_int32_sum_list:
  "fold (\<lambda>x acc. int32 (acc + int32 (f x))) xs (int32 a) = int32 (a + sum_list (map f xs))"
proof (induction xs arbitrary: a)
  case Nil
  then show ?case by simp
next
  case (Cons x xs)
  have "int32 (int32 a + int32 (f x)) = int32 (a + f x)"
    by (simp only: int32_add_left int32_add_right)
  then show ?case using Cons.IH[of "a + f x"] by (simp add: add.assoc)
qed

lemma pair_freq_sum_list:
  "pair_freq wt ws p idxs =
     int32 (sum_list (map (\<lambda>idx. count_occurrences_in_word (tokens (ws ! idx)) p * wt (ws ! idx)) idxs))"
  unfolding pair_freq_def
  using fold_int32_sum_list[of "\<lambda>idx. count_occurrences_in_word (tokens (ws ! idx)) p * wt (ws ! idx)" idxs 0]
  by (simp add: int32_zero)

lemma pair_freq_pos_witness:
  assumes "0 < pair_freq wt ws p idxs"
  shows "\<exists>idx \<in> set idxs. 0 < count_occurrences_in_word (tokens (ws ! idx)) p"
proof (rule ccontr)
  assume "\<not> ?thesis"
  then have z: "\<forall>idx \<in> set idxs. count_occurrences_in_word (tokens (ws ! idx)) p = 0"
    using count_occurrences_nonneg by (metis order_le_less)
  have "sum_list (map (\<lambda>idx. count_occurrences_in_word (tokens (ws ! idx)) p * wt (ws ! idx)) idxs)
        = sum_list (map (\<lambda>idx. 0) idxs)"
    by (rule arg_cong[where f=sum_list], rule map_cong) (use z in auto)
  then have "pair_freq wt ws p idxs = 0" by (simp add: pair_freq_sum_list int32_zero)
  with assms show False by simp
qed

lemma sum_list_support:
  fixes f :: "nat \<Rightarrow> int"
  assumes "distinct idxs" "set idxs \<subseteq> {0..<n}" "\<forall>i\<in>{0..<n} - set idxs. f i = 0"
  shows "sum_list (map f idxs) = sum_list (map f [0..<n])"
proof -
  have "sum_list (map f idxs) = sum f (set idxs)"
    by (rule sum_list_distinct_conv_sum_set[OF assms(1)])
  also have "\<dots> = sum f {0..<n}"
    by (rule sum.mono_neutral_left) (use assms in auto)
  also have "\<dots> = sum_list (map f [0..<n])"
    by (simp only: interv_sum_list_conv_sum_set_nat set_upt)
  finally show ?thesis .
qed

lemma map_by_index: "map g ws = map (\<lambda>i. g (ws ! i)) [0..<length ws]"
  by (rule nth_equalityI) simp_all

lemma count_zero_if_absent:
  "p \<notin> set (adjacent_pairs ts) \<Longrightarrow> count_occurrences_in_word ts p = 0"
  using count_occurrences_pos_iff[of ts p] count_occurrences_nonneg[of ts p] by linarith

lemma pair_freq_weighted:
  assumes d: "distinct idxs"
    and s: "set idxs = {i. i < length ws \<and> p \<in> set (adjacent_pairs (tokens (ws ! i)))}"
  shows "pair_freq wt ws p idxs = int32 (weighted_frequency wt ws p)"
proof -
  define f where "f = (\<lambda>i. count_occurrences_in_word (tokens (ws ! i)) p * wt (ws ! i))"
  have sub: "set idxs \<subseteq> {0..<length ws}"
    by (subst s) auto
  have zero: "\<forall>i\<in>{0..<length ws} - set idxs. f i = 0"
  proof
    fix i assume i: "i \<in> {0..<length ws} - set idxs"
    have "p \<notin> set (adjacent_pairs (tokens (ws ! i)))"
    proof
      assume "p \<in> set (adjacent_pairs (tokens (ws ! i)))"
      with i have "i \<in> {i. i < length ws \<and> p \<in> set (adjacent_pairs (tokens (ws ! i)))}" by simp
      then have "i \<in> set idxs" by (simp only: s)
      with i show False by simp
    qed
    then show "f i = 0" by (simp add: f_def count_zero_if_absent)
  qed
  have "sum_list (map f idxs) = sum_list (map f [0..<length ws])"
    by (rule sum_list_support[OF d sub zero])
  also have "\<dots> = weighted_frequency wt ws p"
    unfolding weighted_frequency_def f_def
    by (rule arg_cong[where f=sum_list], rule map_by_index[symmetric])
  finally have "int32 (sum_list (map f idxs)) = int32 (weighted_frequency wt ws p)"
    by (rule arg_cong)
  then show ?thesis by (simp only: pair_freq_sum_list f_def)
qed

lemma find_best_fold:
  fixes m :: pair_index
  defines "stp \<equiv> (\<lambda>wt ws (kv :: token_pair \<times> nat list) (best :: token_pair \<times> int).
             (let freq = pair_freq wt ws (fst kv) (snd kv)
              in if freq > snd best then (fst kv, freq) else best))"
  shows "snd b0 \<le> snd (fold (stp wt ws) m b0)
       \<and> (\<forall>kv \<in> set m. pair_freq wt ws (fst kv) (snd kv) \<le> snd (fold (stp wt ws) m b0))
       \<and> (fold (stp wt ws) m b0 = b0 \<or>
            (\<exists>kv \<in> set m. fold (stp wt ws) m b0 = (fst kv, pair_freq wt ws (fst kv) (snd kv))))"
proof (induction m arbitrary: b0)
  case Nil
  then show ?case by simp
next
  case (Cons kv m)
  let ?b1 = "stp wt ws kv b0"
  have b1: "snd b0 \<le> snd ?b1" "pair_freq wt ws (fst kv) (snd kv) \<le> snd ?b1"
    "?b1 = b0 \<or> ?b1 = (fst kv, pair_freq wt ws (fst kv) (snd kv))"
    by (auto simp: stp_def Let_def)
  from Cons[of ?b1] b1 show ?case
    by (auto simp del: split_paired_All split_paired_Ex)
qed

lemma find_best_max:
  "(q, idxs) \<in> set m \<Longrightarrow> pair_freq wt ws q idxs \<le> snd (find_best wt ws m)"
  using find_best_fold[of "((- 1, - 1), 0)" wt ws m] unfolding find_best_def by fastforce

lemma find_best_attained:
  assumes "0 < snd (find_best wt ws m)"
  shows "\<exists>idxs. (fst (find_best wt ws m), idxs) \<in> set m
           \<and> snd (find_best wt ws m) = pair_freq wt ws (fst (find_best wt ws m)) idxs"
proof -
  from find_best_fold[of "((- 1, - 1), 0)" wt ws m]
  have "find_best wt ws m = ((- 1, - 1), 0) \<or>
            (\<exists>kv \<in> set m. find_best wt ws m = (fst kv, pair_freq wt ws (fst kv) (snd kv)))"
    unfolding find_best_def by blast
  with assms show ?thesis by (auto simp del: split_paired_Ex)
qed

lemma update_word_pair: 
  "update_word bp n a (ws, m) = (fst (update_word bp n a (ws, m)), snd (update_word bp n a (ws, m)))"
  by simp

lemma length_update_word: "length (fst (update_word bp n a (ws, m))) = length ws"
  by (simp add: update_word_words)

lemma fold_update_word_inv:
  assumes "set affected \<subseteq> {..<length ws}" "pairsets_ok ws" "index_tracks ws m" "index_wf m"
  shows "pairsets_ok (fst (fold (update_word bp n) affected (ws, m)))
       \<and> index_tracks (fst (fold (update_word bp n) affected (ws, m)))
                      (snd (fold (update_word bp n) affected (ws, m)))
       \<and> index_wf (snd (fold (update_word bp n) affected (ws, m)))"
  using assms
proof (induction affected arbitrary: ws m)
  case Nil
  then show ?case by simp
next
  case (Cons a as)
  let ?ws = "fst (update_word bp n a (ws, m))" and ?m = "snd (update_word bp n a (ws, m))"
  have a: "a < length ws" using Cons.prems(1) by simp
  have 1: "set as \<subseteq> {..<length ?ws}" using Cons.prems(1) by (simp add: length_update_word)
  have 2: "pairsets_ok ?ws" by (rule update_word_pairsets[OF Cons.prems(2)])
  have 3: "index_tracks ?ws ?m" by (rule update_word_tracks[OF a Cons.prems(2,3)])
  have 4: "index_wf ?m" by (rule update_word_wf[OF Cons.prems(4)])
  have "fold (update_word bp n) (a # as) (ws, m) = fold (update_word bp n) as (?ws, ?m)"
    by simp
  with Cons.IH[OF 1 2 3 4] show ?case by (simp only:)
qed

lemma fold_update_word_length:
  "length (fst (fold (update_word bp n) affected (ws, m))) = length ws"
proof (induction affected arbitrary: ws m)
  case Nil
  then show ?case by simp
next
  case (Cons a as)
  have "fold (update_word bp n) (a # as) (ws, m)
         = fold (update_word bp n) as (fst (update_word bp n a (ws, m)), snd (update_word bp n a (ws, m)))"
    by simp
  then show ?case by (simp only: Cons.IH length_update_word)
qed

lemma fold_update_word_tokens:
  assumes "distinct affected" "i < length ws"
  shows "tokens (fst (fold (update_word bp n) affected (ws, m)) ! i) =
           (if i \<in> set affected then merge_pair_in_word (tokens (ws ! i)) bp n else tokens (ws ! i))"
  using assms
proof (induction affected arbitrary: ws m)
  case Nil
  then show ?case by simp
next
  case (Cons a as)
  let ?ws = "fst (update_word bp n a (ws, m))" and ?m = "snd (update_word bp n a (ws, m))"
  have f: "fold (update_word bp n) (a # as) (ws, m) = fold (update_word bp n) as (?ws, ?m)"
    by simp
  have d: "distinct as" and na: "a \<notin> set as" using Cons.prems(1) by simp_all
  have i: "i < length ?ws" using Cons.prems(2) by (simp add: length_update_word)
  have t: "tokens (?ws ! i) = (if i = a then merge_pair_in_word (tokens (ws ! i)) bp n else tokens (ws ! i))"
    using Cons.prems(2) by (simp add: update_word_words nth_list_update)
  show ?case
    unfolding f Cons.IH[OF d i] t using na by auto
qed

lemma fold_update_word_frame:
  assumes g: "\<And>w t ps. g (w\<lparr>tokens := t, pairSet := ps\<rparr>) = g w"
  shows "map g (fst (fold (update_word bp n) affected (ws, m))) = map g ws"
proof (induction affected arbitrary: ws m)
  case Nil
  then show ?case by simp
next
  case (Cons a as)
  let ?ws = "fst (update_word bp n a (ws, m))" and ?m = "snd (update_word bp n a (ws, m))"
  have f: "fold (update_word bp n) (a # as) (ws, m) = fold (update_word bp n) as (?ws, ?m)"
    by simp
  have "(map g ws)[a := g (ws ! a)] = map g ws"
    by (cases "a < length ws") (simp_all add: list_update_same_conv list_update_beyond)
  then have "map g ?ws = map g ws"
    unfolding update_word_words by (simp add: map_update g)
  then show ?case unfolding f Cons.IH by simp
qed

lemma fold_update_word_untouched:
  assumes "i \<notin> set affected"
  shows "fst (fold (update_word bp n) affected (ws, m)) ! i = ws ! i"
  using assms
proof (induction affected arbitrary: ws m)
  case Nil
  then show ?case by simp
next
  case (Cons a as)
  let ?ws = "fst (update_word bp n a (ws, m))" and ?m = "snd (update_word bp n a (ws, m))"
  have f: "fold (update_word bp n) (a # as) (ws, m) = fold (update_word bp n) as (?ws, ?m)"
    by simp
  have "i \<notin> set as" "i \<noteq> a" using Cons.prems by simp_all
  then show ?case unfolding f using Cons.IH[of ?ws ?m] by (simp add: update_word_words)
qed

lemma adjacent_in_set:
  "(a, b) \<in> set (adjacent_pairs ts) \<Longrightarrow> a \<in> set ts \<and> b \<in> set ts"
  unfolding adjacent_pairs_def
  by (metis in_set_zipE list.sel(2) list.set_sel(2))

lemma index_entry:
  assumes wf: "index_wf m" and tr: "index_tracks ws m" and mem: "(p, idxs) \<in> set m"
  shows "map_of m p = Some idxs \<and> distinct idxs
       \<and> set idxs = {i. i < length ws \<and> p \<in> set (adjacent_pairs (tokens (ws ! i)))}"
proof -
  have d: "distinct (map fst m)" using wf by (simp add: index_wf_def)
  have mo: "map_of m p = Some idxs" using d mem by simp
  have di: "distinct idxs" using index_wfD[OF wf mo] by simp
  have "registered m p = set idxs" using mo by (simp add: registered_def)
  moreover have "registered m p = {i. i < length ws \<and> p \<in> set (adjacent_pairs (tokens (ws ! i)))}"
    using tr unfolding index_tracks_def by blast
  ultimately show ?thesis using mo di by simp
qed

lemma entry_freq:
  assumes wf: "index_wf m" and tr: "index_tracks ws m" and mem: "(p, idxs) \<in> set m"
  shows "pair_freq wt ws p idxs = int32 (weighted_frequency wt ws p)"
  using index_entry[OF wf tr mem] by (intro pair_freq_weighted) simp_all

lemma best_pair_facts:
  assumes wf: "index_wf m" and tr: "index_tracks ws m"
    and pos: "0 < snd (find_best wt ws m)"
  shows "\<exists>idxs. (fst (find_best wt ws m), idxs) \<in> set m
           \<and> map_of m (fst (find_best wt ws m)) = Some idxs
           \<and> snd (find_best wt ws m) = int32 (weighted_frequency wt ws (fst (find_best wt ws m)))
           \<and> (\<exists>i < length ws. fst (find_best wt ws m) \<in> set (adjacent_pairs (tokens (ws ! i))))"
proof -
  let ?bp = "fst (find_best wt ws m)"
  from find_best_attained[OF pos] obtain idxs where
    mem: "(?bp, idxs) \<in> set m" and bf: "snd (find_best wt ws m) = pair_freq wt ws ?bp idxs"
    by blast
  note e = index_entry[OF wf tr mem]
  from pos bf have "0 < pair_freq wt ws ?bp idxs" by simp
  from pair_freq_pos_witness[OF this] obtain idx where
    idx: "idx \<in> set idxs" "0 < count_occurrences_in_word (tokens (ws ! idx)) ?bp" by blast
  from idx(1) e have "idx < length ws \<and> ?bp \<in> set (adjacent_pairs (tokens (ws ! idx)))" by simp
  then have "\<exists>i < length ws. ?bp \<in> set (adjacent_pairs (tokens (ws ! i)))" by blast
  with mem e bf entry_freq[OF wf tr mem, of wt] show ?thesis by auto
qed

lemma merge_step_Break_iff:
  "merge_step wt rf s = Break s' \<longleftrightarrow>
     (snd (find_best wt (words s) (pair_to_word_indices s)) < 2
      \<and> s' = s\<lparr>iteration := iteration s + 1\<rparr>)"
  by (auto simp: merge_step_def Let_def)

lemma merge_step_Continue_iff:
  "merge_step wt rf s = Continue s' \<longleftrightarrow>
     (2 \<le> snd (find_best wt (words s) (pair_to_word_indices s))
      \<and> s' =
         (let best_pair = fst (find_best wt (words s) (pair_to_word_indices s));
              new_token_str = id_to_token (symtab s) ! nat (fst best_pair)
                                  @ id_to_token (symtab s) ! nat (snd best_pair);
              gt = get_token_id new_token_str (symtab s);
              ia = index_at best_pair (pair_to_word_indices s);
              wm = fold (update_word best_pair (fst gt)) (snd ia) (words s, fst ia)
          in \<lparr>words = fst wm, symtab = snd gt,
               pair_to_word_indices = AList.delete best_pair (snd wm),
               merges = merges s @ [\<lparr>merge_pair = best_pair, new_token = fst gt,
                        frequency = rf (words s) new_token_str
                                      (snd (find_best wt (words s) (pair_to_word_indices s)))\<rparr>],
               iteration = iteration s + 1\<rparr>))"
  by (auto simp: merge_step_def Let_def)

lemma merge_step_inv:
  assumes inv: "state_inv s" and st: "merge_step wt rf s = Continue s'"
  shows "state_inv s'"
proof -
  define ws where "ws = words s"
  define m where "m = pair_to_word_indices s"
  define tab where "tab = symtab s"
  define bp where "bp = fst (find_best wt ws m)"
  define str where "str = id_to_token tab ! nat (fst bp) @ id_to_token tab ! nat (snd bp)"
  define n where "n = fst (get_token_id str tab)"
  define tab' where "tab' = snd (get_token_id str tab)"
  define R where "R = fold (update_word bp n) (snd (index_at bp m)) (ws, fst (index_at bp m))"
  from inv have ok: "symbols_ok tab" and tv: "tokens_valid tab ws" and ps: "pairsets_ok ws"
    and tr: "index_tracks ws m" and wf: "index_wf m"
    by (simp_all add: state_inv_def ws_def m_def tab_def)
  from st have bf: "2 \<le> snd (find_best wt ws m)"
    and s': "words s' = fst R" "symtab s' = tab'" "pair_to_word_indices s' = AList.delete bp (snd R)"
    by (simp_all add: merge_step_Continue_iff Let_def ws_def m_def tab_def bp_def str_def n_def tab'_def R_def)
  from bf have pos: "0 < snd (find_best wt ws m)" by simp
  from best_pair_facts[OF wf tr pos] obtain idxs i0 where
    mem: "(bp, idxs) \<in> set m" and mo: "map_of m bp = Some idxs"
    and i0: "i0 < length ws" "bp \<in> set (adjacent_pairs (tokens (ws ! i0)))"
    unfolding bp_def by blast
  note e = index_entry[OF wf tr mem]
  have ia: "index_at bp m = (m, idxs)" using mo by (simp add: index_at_def)
  have R: "R = fold (update_word bp n) idxs (ws, m)" by (simp add: R_def ia)
  have sub: "set idxs \<subseteq> {..<length ws}" using e by auto
  have di: "distinct idxs" using e by simp
  note Rinv = fold_update_word_inv[OF sub ps tr wf, of bp n, folded R]
  have len: "length (fst R) = length ws" unfolding R by (rule fold_update_word_length)
  \<comment> \<open>the two tokens of the pair are valid ids\<close>
  have "(fst bp, snd bp) \<in> set (adjacent_pairs (tokens (ws ! i0)))" using i0(2) by simp
  from adjacent_in_set[OF this] have "fst bp \<in> set (tokens (ws ! i0))" "snd bp \<in> set (tokens (ws ! i0))"
    by simp_all
  moreover have "ws ! i0 \<in> set ws" using i0(1) by simp
  ultimately have va: "valid_id tab (fst bp)" and vb: "valid_id tab (snd bp)"
    using tv unfolding tokens_valid_def by blast+
  have ne: "str \<noteq> []" using symbols_nonempty[OF ok va] by (simp add: str_def)
  have ok': "symbols_ok tab'" unfolding tab'_def by (rule get_token_id_ok[OF ok ne])
  from get_token_id_cases[OF ok, of str] obtain ys where
    vn: "valid_id tab' n" and ext: "id_to_token tab' = id_to_token tab @ ys"
    unfolding n_def tab'_def by blast
  from new_token_fresh[OF ok va vb, of str] have fresh: "n \<noteq> fst bp" "n \<noteq> snd bp"
    unfolding n_def str_def by simp_all
  \<comment> \<open>tokens after the loop\<close>
  have tok: "tokens (fst R ! i) =
           (if i \<in> set idxs then merge_pair_in_word (tokens (ws ! i)) bp n else tokens (ws ! i))"
    if "i < length ws" for i
    unfolding R by (rule fold_update_word_tokens[OF di that])
  have gone: "bp \<notin> set (adjacent_pairs (tokens (fst R ! i)))" if "i < length ws" for i
  proof (cases "i \<in> set idxs")
    case True
    then show ?thesis using tok[OF that] merge_removes_pair[OF fresh] by simp
  next
    case False
    then have "bp \<notin> set (adjacent_pairs (tokens (ws ! i)))" using e that by simp
    with False show ?thesis using tok[OF that] by simp
  qed
  have tv': "tokens_valid tab' (fst R)"
    unfolding tokens_valid_def
  proof (intro ballI)
    fix w t assume w: "w \<in> set (fst R)" and t: "t \<in> set (tokens w)"
    from w obtain i where i: "i < length ws" "w = fst R ! i"
      by (auto simp: in_set_conv_nth len)
    have "set (tokens w) \<subseteq> insert n (set (tokens (ws ! i)))"
      using tok[OF i(1)] set_merge_subset[of "tokens (ws ! i)" bp n] i(2) by (auto split: if_splits)
    with t have "t = n \<or> t \<in> set (tokens (ws ! i))" by auto
    moreover have "valid_id tab t'" if "t' \<in> set (tokens (ws ! i))" for t'
      using tv i(1) that unfolding tokens_valid_def by (metis nth_mem)
    ultimately show "valid_id tab' t" using vn valid_id_mono[OF _ ext] by blast
  qed
  have tr': "index_tracks (fst R) (AList.delete bp (snd R))"
    unfolding index_tracks_def
  proof
    fix q
    have r: "registered (snd R) q = {i. i < length (fst R) \<and> q \<in> set (adjacent_pairs (tokens (fst R ! i)))}"
      using Rinv unfolding index_tracks_def by blast
    show "registered (AList.delete bp (snd R)) q
            = {i. i < length (fst R) \<and> q \<in> set (adjacent_pairs (tokens (fst R ! i)))}"
    proof (cases "q = bp")
      case True
      then show ?thesis using gone by (auto simp: registered_delete len)
    next
      case False
      then show ?thesis using r by (simp add: registered_delete)
    qed
  qed
  have wf': "index_wf (AList.delete bp (snd R))" using Rinv by (simp add: index_wf_delete)
  show ?thesis
    unfolding state_inv_def s' using ok' tv' Rinv tr' wf' by simp
qed

lemma total_tokens_sum: "total_tokens ws = sum (\<lambda>i. length (tokens (ws ! i))) {0..<length ws}"
proof -
  have "total_tokens ws = sum_list (map (\<lambda>i. length (tokens (ws ! i))) [0..<length ws])"
    unfolding total_tokens_def by (rule arg_cong[where f=sum_list], rule map_by_index)
  also have "\<dots> = sum (\<lambda>i. length (tokens (ws ! i))) {0..<length ws}"
    by (simp only: interv_sum_list_conv_sum_set_nat set_upt)
  finally show ?thesis .
qed

lemma merge_step_decreases:
  assumes inv: "state_inv s" and st: "merge_step wt rf s = Continue s'"
  shows "total_tokens (words s') < total_tokens (words s)"
proof -
  define ws where "ws = words s"
  define m where "m = pair_to_word_indices s"
  define bp where "bp = fst (find_best wt ws m)"
  define n where "n = fst (get_token_id (id_to_token (symtab s) ! nat (fst bp) @ id_to_token (symtab s) ! nat (snd bp)) (symtab s))"
  define R where "R = fold (update_word bp n) (snd (index_at bp m)) (ws, fst (index_at bp m))"
  from inv have tr: "index_tracks ws m" and wf: "index_wf m"
    by (simp_all add: state_inv_def ws_def m_def)
  from st have bf: "2 \<le> snd (find_best wt ws m)" and s': "words s' = fst R"
    by (simp_all add: merge_step_Continue_iff Let_def ws_def m_def bp_def n_def R_def)
  from bf have pos: "0 < snd (find_best wt ws m)" by simp
  from best_pair_facts[OF wf tr pos] obtain idxs i0 where
    mem: "(bp, idxs) \<in> set m" and mo: "map_of m bp = Some idxs"
    and i0: "i0 < length ws" "bp \<in> set (adjacent_pairs (tokens (ws ! i0)))"
    unfolding bp_def by blast
  note e = index_entry[OF wf tr mem]
  have R: "R = fold (update_word bp n) idxs (ws, m)" using mo by (simp add: R_def index_at_def)
  have di: "distinct idxs" using e by simp
  have len: "length (fst R) = length ws" unfolding R by (rule fold_update_word_length)
  have tok: "tokens (fst R ! i) =
           (if i \<in> set idxs then merge_pair_in_word (tokens (ws ! i)) bp n else tokens (ws ! i))"
    if "i < length ws" for i
    unfolding R by (rule fold_update_word_tokens[OF di that])
  have le: "length (tokens (fst R ! i)) \<le> length (tokens (ws ! i))" if "i < length ws" for i
    using tok[OF that] length_merge_le[of "tokens (ws ! i)" bp n] by simp
  have "i0 \<in> set idxs" using e i0 by simp
  then have lt: "length (tokens (fst R ! i0)) < length (tokens (ws ! i0))"
    using tok[OF i0(1)] length_merge_less[OF i0(2), of n] by simp
  have "sum (\<lambda>i. length (tokens (fst R ! i))) {0..<length ws}
          < sum (\<lambda>i. length (tokens (ws ! i))) {0..<length ws}"
  proof (rule sum_strict_mono_ex1)
    show "finite {0..<length ws}" by simp
    show "\<forall>i\<in>{0..<length ws}. length (tokens (fst R ! i)) \<le> length (tokens (ws ! i))"
      using le by simp
    show "\<exists>i\<in>{0..<length ws}. length (tokens (fst R ! i)) < length (tokens (ws ! i))"
      using lt i0(1) by auto
  qed
  then show ?thesis
    unfolding s' ws_def[symmetric] total_tokens_sum len .
qed

lemma merge_step_merges:
  "merge_step wt rf s = Continue s' \<Longrightarrow> length (merges s') = Suc (length (merges s))"
  by (simp add: merge_step_Continue_iff Let_def)

lemma merge_step_frame:
  assumes g: "\<And>w t ps. g (w\<lparr>tokens := t, pairSet := ps\<rparr>) = g w"
    and st: "merge_step wt rf s = Continue s'"
  shows "map g (words s') = map g (words s)"
  using st by (simp add: merge_step_Continue_iff Let_def fold_update_word_frame[where g=g, OF g])

lemma stop_condition:
  assumes wf: "index_wf m" and tr: "index_tracks ws m"
  shows "snd (find_best wt ws m) < 2
           \<longleftrightarrow> (\<forall>kv \<in> set m. int32 (weighted_frequency wt ws (fst kv)) < 2)"
proof
  assume lt: "snd (find_best wt ws m) < 2"
  show "\<forall>kv \<in> set m. int32 (weighted_frequency wt ws (fst kv)) < 2"
  proof
    fix kv assume kv: "kv \<in> set m"
    then have mem: "(fst kv, snd kv) \<in> set m" by simp
    have "int32 (weighted_frequency wt ws (fst kv)) = pair_freq wt ws (fst kv) (snd kv)"
      using entry_freq[OF wf tr mem] by simp
    also have "\<dots> \<le> snd (find_best wt ws m)" by (rule find_best_max[OF mem])
    finally show "int32 (weighted_frequency wt ws (fst kv)) < 2" using lt by simp
  qed
next
  assume all: "\<forall>kv \<in> set m. int32 (weighted_frequency wt ws (fst kv)) < 2"
  show "snd (find_best wt ws m) < 2"
  proof (rule ccontr)
    assume "\<not> snd (find_best wt ws m) < 2"
    then have pos: "0 < snd (find_best wt ws m)" and ge: "2 \<le> snd (find_best wt ws m)" by simp_all
    from best_pair_facts[OF wf tr pos] obtain idxs where
      "(fst (find_best wt ws m), idxs) \<in> set m"
      "snd (find_best wt ws m) = int32 (weighted_frequency wt ws (fst (find_best wt ws m)))" by blast
    with all ge show False by fastforce
  qed
qed

lemma merge_loop_total:
  assumes "state_inv s"
  shows "\<exists>s'. merge_loop wt rf s = Some s' \<and> state_inv s'
          \<and> length (merges s') + total_tokens (words s') \<le> length (merges s) + total_tokens (words s)
          \<and> snd (find_best wt (words s') (pair_to_word_indices s')) < 2"
  using assms
proof (induction "total_tokens (words s)" arbitrary: s rule: less_induct)
  case less
  show ?case
  proof (cases "merge_step wt rf s")
    case (Break s')
    then have b: "snd (find_best wt (words s) (pair_to_word_indices s)) < 2"
      "s' = s\<lparr>iteration := iteration s + 1\<rparr>"
      by (simp_all add: merge_step_Break_iff)
    have "merge_loop wt rf s = Some s'" by (subst merge_loop.simps) (simp add: Break)
    moreover have "state_inv s'" using less.prems b(2) by (simp add: state_inv_def)
    ultimately show ?thesis using b by auto
  next
    case (Continue s1)
    have inv1: "state_inv s1" by (rule merge_step_inv[OF less.prems Continue])
    have dec: "total_tokens (words s1) < total_tokens (words s)"
      by (rule merge_step_decreases[OF less.prems Continue])
    from less.hyps[OF dec inv1] obtain s' where
      l: "merge_loop wt rf s1 = Some s'" and i: "state_inv s'"
      and c: "length (merges s') + total_tokens (words s') \<le> length (merges s1) + total_tokens (words s1)"
      and f: "snd (find_best wt (words s') (pair_to_word_indices s')) < 2" by blast
    have "merge_loop wt rf s = Some s'" by (subst merge_loop.simps) (simp add: Continue l)
    moreover have "length (merges s') + total_tokens (words s') \<le> length (merges s) + total_tokens (words s)"
      using c dec merge_step_merges[OF Continue] by linarith
    ultimately show ?thesis using i f by blast
  qed
qed

lemma iterations_inv:
  "state_inv s \<Longrightarrow> iterations wt rf k s = Some s' \<Longrightarrow> state_inv s'"
proof (induction k arbitrary: s)
  case 0
  then show ?case by simp
next
  case (Suc k)
  show ?case
  proof (cases "merge_step wt rf s")
    case (Break x)
    with Suc.prems show ?thesis by simp
  next
    case (Continue s1)
    with Suc.prems have "iterations wt rf k s1 = Some s'" by simp
    with Suc.IH[OF merge_step_inv[OF Suc.prems(1) Continue]] show ?thesis by blast
  qed
qed

lemma utf8_chars_nonempty:
  "utf8_chars w = Some cps \<Longrightarrow> [] \<notin> set cps"
proof (induction w arbitrary: cps rule: utf8_chars.induct)
  case 1
  then show ?case by simp
next
  case (2 c cs)
  from 2(2) obtain k r where k: "utf8_seq_len c cs = Some k"
    and r: "utf8_chars (drop (k - 1) cs) = Some r" and cps: "cps = (c # take (k - 1) cs) # r"
    by (auto split: option.splits)
  from 2(1)[OF k r] cps show ?case by simp
qed

lemma tokenize_fold:
  assumes "symbols_ok tab0" "[] \<notin> set cps" "\<forall>t \<in> set ts0. valid_id tab0 t"
  defines "r \<equiv> fold (\<lambda>token acc. (let r = get_token_id token (snd acc) in (fst acc @ [fst r], snd r)))
          cps (ts0, tab0)"
  shows "symbols_ok (snd r) \<and> (\<forall>t \<in> set (fst r). valid_id (snd r) t)
         \<and> (\<exists>ys. id_to_token (snd r) = id_to_token tab0 @ ys)"
  using assms(1-3) unfolding r_def
proof (induction cps arbitrary: ts0 tab0)
  case Nil
  then show ?case by simp
next
  case (Cons c cps)
  let ?n = "fst (get_token_id c tab0)" and ?tab = "snd (get_token_id c tab0)"
  have ne: "c \<noteq> []" using Cons.prems(2) by auto
  have ok: "symbols_ok ?tab" by (rule get_token_id_ok[OF Cons.prems(1) ne])
  from get_token_id_cases[OF Cons.prems(1), of c] obtain ys where
    vn: "valid_id ?tab ?n" and ext: "id_to_token ?tab = id_to_token tab0 @ ys" by blast
  have v: "\<forall>t \<in> set (ts0 @ [?n]). valid_id ?tab t"
    using Cons.prems(3) vn valid_id_mono[OF _ ext] by auto
  have rest: "[] \<notin> set cps" using Cons.prems(2) by simp
  from Cons.IH[OF ok rest v] ext show ?case by (auto simp: Let_def)
qed

lemma tokenize_ok:
  assumes "symbols_ok tab" "[] \<notin> set cps"
  shows "symbols_ok (snd (tokenize cps tab)) \<and> (\<forall>t \<in> set (fst (tokenize cps tab)). valid_id (snd (tokenize cps tab)) t)
         \<and> (\<exists>ys. id_to_token (snd (tokenize cps tab)) = id_to_token tab @ ys)"
  unfolding tokenize_def using tokenize_fold[OF assms, of "[]"] by simp

lemma tokens_valid_mono:
  "tokens_valid tab ws \<Longrightarrow> id_to_token tab' = id_to_token tab @ ys \<Longrightarrow> tokens_valid tab' ws"
  unfolding tokens_valid_def using valid_id_mono by blast

lemma pairsets_ok_snoc:
  assumes "pairsets_ok ws" "set (pairSet w) = set (adjacent_pairs (tokens w))"
  shows "pairsets_ok (ws @ [w])"
  unfolding pairsets_ok_def
proof (intro allI impI)
  fix i assume "i < length (ws @ [w])"
  then consider "i < length ws" | "i = length ws" by fastforce
  then show "set (pairSet ((ws @ [w]) ! i)) = set (adjacent_pairs (tokens ((ws @ [w]) ! i)))"
  proof cases
    case 1
    then show ?thesis using assms(1) by (simp add: pairsets_ok_def nth_append)
  next
    case 2
    then show ?thesis using assms(2) by (simp add: nth_append)
  qed
qed

lemma add_entry_inv:
  assumes inv: "load_inv st" and cps: "[] \<notin> set cps"
    and tk: "tk = tokenize cps (l_symtab st)"
    and e: "tokens entry = fst tk" "pairSet entry = compute_pairs (fst tk)"
  shows "load_inv (st\<lparr>l_words := l_words st @ [entry], l_symtab := snd tk,
                          total_words := total_words st + 1\<rparr>)"
proof -
  from inv have ok: "symbols_ok (l_symtab st)" and tv: "tokens_valid (l_symtab st) (l_words st)"
    and ps: "pairsets_ok (l_words st)" by (simp_all add: load_inv_def)
  from tokenize_ok[OF ok cps] obtain ys where
    ok': "symbols_ok (snd tk)" and v: "\<forall>t \<in> set (fst tk). valid_id (snd tk) t"
    and ext: "id_to_token (snd tk) = id_to_token (l_symtab st) @ ys"
    unfolding tk by blast
  have tv': "tokens_valid (snd tk) (l_words st @ [entry])"
    using tokens_valid_mono[OF tv ext] v e(1) by (auto simp: tokens_valid_def)
  have ps': "pairsets_ok (l_words st @ [entry])"
    by (rule pairsets_ok_snoc[OF ps]) (simp add: e set_compute_pairs)
  show ?thesis using ok' tv' ps' by (simp add: load_inv_def)
qed

lemma bpe_read_line_inv:
  assumes "load_inv st" "bpe_read_line line st = Inr st'"
  shows "load_inv st'"
proof (cases "line = []")
  case True
  with assms show ?thesis by (simp add: bpe_read_line_def)
next
  case False
  show ?thesis
  proof (cases "parse_word_tf_df line")
    case None
    with False assms show ?thesis by (auto simp: bpe_read_line_def load_inv_def)
  next
    case (Some r)
    obtain word_str tf_v df_v where r: "r = (word_str, tf_v, df_v)" by (cases r) auto
    show ?thesis
    proof (cases "utf8_chars word_str")
      case None
      with False Some r assms show ?thesis by (simp add: bpe_read_line_def)
    next
      case (Some cps)
      note c = utf8_chars_nonempty[OF Some]
      from False \<open>parse_word_tf_df line = Some r\<close> r Some assms(2)
      have "st' = st\<lparr>l_words := l_words st @ [\<lparr>tokens = fst (tokenize cps (l_symtab st)),
                   pairSet = compute_pairs (fst (tokenize cps (l_symtab st))), tf = tf_v, df = df_v\<rparr>],
                l_symtab := snd (tokenize cps (l_symtab st)), total_words := total_words st + 1\<rparr>"
        by (simp add: bpe_read_line_def Let_def)
      then show ?thesis using add_entry_inv[OF assms(1) c refl] by simp
    qed
  qed
qed

lemma bpes_read_line_inv:
  assumes "load_inv st" "bpes_read_line line st = Inr st'"
  shows "load_inv st'"
proof (cases "line = []")
  case True
  with assms show ?thesis by (simp add: bpes_read_line_def)
next
  case False
  show ?thesis
  proof (cases "read_word line")
    case None
    with False assms show ?thesis by (auto simp: bpes_read_line_def load_inv_def)
  next
    case (Some r)
    obtain word_str rest where r: "r = (word_str, rest)" by (cases r) auto
    show ?thesis
    proof (cases "utf8_chars word_str")
      case None
      with False Some r assms show ?thesis by (simp add: bpes_read_line_def)
    next
      case (Some cps)
      note c = utf8_chars_nonempty[OF Some]
      from False \<open>read_word line = Some r\<close> r Some assms(2)
      have "st' = st\<lparr>l_words := l_words st @ [\<lparr>tokens = fst (tokenize cps (l_symtab st)),
                   pairSet = compute_pairs (fst (tokenize cps (l_symtab st))), original = word_str\<rparr>],
                l_symtab := snd (tokenize cps (l_symtab st)), total_words := total_words st + 1\<rparr>"
        by (simp add: bpes_read_line_def Let_def)
      then show ?thesis using add_entry_inv[OF assms(1) c refl] by simp
    qed
  qed
qed

lemma read_lines_inv:
  assumes step: "\<And>line st st'. P st \<Longrightarrow> f line st = Inr st' \<Longrightarrow> P st'"
  shows "P st \<Longrightarrow> read_lines f ls st = Inr st' \<Longrightarrow> P st'"
proof (induction ls arbitrary: st)
  case Nil
  then show ?case by simp
next
  case (Cons l ls)
  then show ?case using step by (auto split: sum.splits)
qed

lemma load_init_inv: "load_inv load_init"
  by (simp add: load_inv_def load_init_def symbols_ok_def tokens_valid_def pairsets_ok_def)

lemma bpe_load_inv: "bpe_load ls = Inr st \<Longrightarrow> load_inv st"
  unfolding bpe_load_def
  by (rule read_lines_inv[where P=load_inv and f=bpe_read_line, OF bpe_read_line_inv load_init_inv])

lemma bpes_load_inv: "bpes_load ls = Inr st \<Longrightarrow> load_inv st"
  unfolding bpes_load_def
  by (rule read_lines_inv[where P=load_inv and f=bpes_read_line, OF bpes_read_line_inv load_init_inv])

lemma fold_insert_all_registered:
  "registered (fold (\<lambda>p m. index_insert p i m) ps m) q =
     (if q \<in> set ps then insert i (registered m q) else registered m q)"
  by (induction ps arbitrary: m) (auto simp: registered_insert)

lemma fold_insert_all_wf:
  "index_wf m \<Longrightarrow> index_wf (fold (\<lambda>p m. index_insert p i m) ps m)"
  by (induction ps arbitrary: m) (auto simp: index_wf_insert)

lemma build_index_upto:
  "k \<le> length ws \<Longrightarrow>
   index_wf (fold (\<lambda>i m. fold (\<lambda>p m. index_insert p i m) (pairSet (ws ! i)) m) [0..<k] [])
   \<and> (\<forall>q. registered (fold (\<lambda>i m. fold (\<lambda>p m. index_insert p i m) (pairSet (ws ! i)) m) [0..<k] []) q
          = {i. i < k \<and> q \<in> set (pairSet (ws ! i))})"
proof (induction k)
  case 0
  show ?case by (simp add: index_wf_def registered_def)
next
  case (Suc k)
  have "k \<le> length ws" using Suc.prems by simp
  note IH = Suc.IH[OF this]
  have ih: "index_wf (fold (\<lambda>i m. fold (\<lambda>p m. index_insert p i m) (pairSet (ws ! i)) m) [0..<k] [])"
    "\<And>q. registered (fold (\<lambda>i m. fold (\<lambda>p m. index_insert p i m) (pairSet (ws ! i)) m) [0..<k] []) q
          = {i. i < k \<and> q \<in> set (pairSet (ws ! i))}"
    using IH by blast+
  show ?case
  proof (intro conjI allI)
    show "index_wf (fold (\<lambda>i m. fold (\<lambda>p m. index_insert p i m) (pairSet (ws ! i)) m) [0..<Suc k] [])"
      using ih(1) by (simp add: fold_insert_all_wf)
  next
    fix q
    show "registered (fold (\<lambda>i m. fold (\<lambda>p m. index_insert p i m) (pairSet (ws ! i)) m) [0..<Suc k] []) q
          = {i. i < Suc k \<and> q \<in> set (pairSet (ws ! i))}"
      by (auto simp: fold_insert_all_registered ih(2) less_Suc_eq)
  qed
qed

lemma build_index_ok:
  assumes "pairsets_ok ws"
  shows "index_wf (build_index ws) \<and> index_tracks ws (build_index ws)"
proof -
  have wf: "index_wf (build_index ws)"
    and r: "\<And>q. registered (build_index ws) q = {i. i < length ws \<and> q \<in> set (pairSet (ws ! i))}"
    using build_index_upto[of "length ws" ws, OF order_refl] unfolding build_index_def by blast+
  have "registered (build_index ws) q = {i. i < length ws \<and> q \<in> set (adjacent_pairs (tokens (ws ! i)))}" for q
    unfolding r using assms by (auto simp: pairsets_ok_def)
  then show ?thesis using wf unfolding index_tracks_def by blast
qed

lemma loop_start_inv: "load_inv st \<Longrightarrow> state_inv (loop_start st)"
  using build_index_ok[of "l_words st"]
  by (simp add: load_inv_def state_inv_def loop_start_def)

lemma bpe_after_inv: "bpe_after k ls = Some s \<Longrightarrow> state_inv s"
  unfolding bpe_after_def
  by (auto split: sum.splits dest!: bpe_load_inv loop_start_inv elim: iterations_inv)

lemma bpes_after_inv: "bpes_after k ls = Some s \<Longrightarrow> state_inv s"
  unfolding bpes_after_def
  by (auto split: sum.splits dest!: bpes_load_inv loop_start_inv elim: iterations_inv)

lemma bpe_sa_after_inv: "bpe_sa_after k ls = Some s \<Longrightarrow> state_inv s"
  unfolding bpe_sa_after_def
  by (auto split: sum.splits option.splits dest!: bpes_load_inv loop_start_inv elim: iterations_inv)

lemma state_inv_exact:
  assumes "state_inv s"
  shows "index_exact (words s) (pair_to_word_indices s)"
proof -
  from assms have wf: "index_wf (pair_to_word_indices s)"
    and tr: "index_tracks (words s) (pair_to_word_indices s)" by (simp_all add: state_inv_def)
  have a: "i < length (words s) \<and> fst kv \<in> set (adjacent_pairs (tokens (words s ! i)))"
    if "kv \<in> set (pair_to_word_indices s)" "i \<in> set (snd kv)" for kv i
  proof -
    from that(1) have "(fst kv, snd kv) \<in> set (pair_to_word_indices s)" by simp
    from index_entry[OF wf tr this] that(2) show ?thesis by simp
  qed
  have b: "\<exists>kv \<in> set (pair_to_word_indices s). fst kv = p \<and> i \<in> set (snd kv)"
    if "i < length (words s)" "p \<in> set (adjacent_pairs (tokens (words s ! i)))" for i p
  proof -
    have "i \<in> registered (pair_to_word_indices s) p"
      using tr that unfolding index_tracks_def by blast
    then obtain idxs where "map_of (pair_to_word_indices s) p = Some idxs" "i \<in> set idxs"
      by (auto simp: registered_def split: option.splits)
    then have "(p, idxs) \<in> set (pair_to_word_indices s)" "i \<in> set idxs"
      by (auto dest: map_of_SomeD)
    then show ?thesis by force
  qed
  show ?thesis unfolding index_exact_def using a b by auto
qed

lemma set_index_at: "set (snd (index_at p m)) = registered m p"
  by (simp add: index_at_def registered_def split: option.splits)

lemma merge_step_untouched:
  assumes "merge_step wt rf s = Continue s'"
    and "i \<notin> registered (pair_to_word_indices s) (fst (find_best wt (words s) (pair_to_word_indices s)))"
  shows "words s' ! i = words s ! i"
proof -
  have "i \<notin> set (snd (index_at (fst (find_best wt (words s) (pair_to_word_indices s))) (pair_to_word_indices s)))"
    using assms(2) by (simp add: set_index_at)
  from fold_update_word_untouched[OF this] assms(1) show ?thesis
    by (simp add: merge_step_Continue_iff Let_def)
qed

lemma merge_step_length:
  "merge_step wt rf s = Continue s' \<Longrightarrow> length (words s') = length (words s)"
  by (simp add: merge_step_Continue_iff Let_def fold_update_word_length)

lemma merge_loop_frame:
  assumes g: "\<And>w t ps. g (w\<lparr>tokens := t, pairSet := ps\<rparr>) = g w"
    and l: "merge_loop wt rf s = Some s'"
  shows "map g (words s') = map g (words s)"
proof (rule merge_loop.raw_induct[where P="\<lambda>wt rf s s'. map g (words s') = map g (words s)", OF _ l])
  fix loop :: "('a WordEntry_scheme \<Rightarrow> int) \<Rightarrow> ('a WordEntry_scheme list \<Rightarrow> string \<Rightarrow> int \<Rightarrow> int)
     \<Rightarrow> 'a WordEntry_scheme bpe_state \<Rightarrow> 'a WordEntry_scheme bpe_state option"
  fix wt rf s s'
  assume ih: "\<And>wt rf s y. loop wt rf s = Some y \<Longrightarrow> map g (words y) = map g (words s)"
    and eq: "(case merge_step wt rf s of Break s' \<Rightarrow> Some s' | Continue s' \<Rightarrow> loop wt rf s') = Some s'"
  show "map g (words s') = map g (words s)"
  proof (cases "merge_step wt rf s")
    case (Break x)
    with eq have "s' = s\<lparr>iteration := iteration s + 1\<rparr>"
      by (simp add: merge_step_Break_iff)
    then show ?thesis by simp
  next
    case (Continue s1)
    with eq have "loop wt rf s1 = Some s'" by simp
    from ih[OF this] merge_step_frame[where g=g, OF g Continue] show ?thesis by simp
  qed
qed

lemma iterations_Suc_last:
  "iterations wt rf (Suc k) s0 = Some s' \<Longrightarrow>
     \<exists>s. iterations wt rf k s0 = Some s \<and> merge_step wt rf s = Continue s'"
proof (induction k arbitrary: s0)
  case 0
  then show ?case by (auto split: step.splits)
next
  case (Suc k)
  from Suc.prems obtain s1 where s1: "merge_step wt rf s0 = Continue s1"
    and r: "iterations wt rf (Suc k) s1 = Some s'"
    by (auto split: step.splits)
  from Suc.IH[OF r] s1 show ?case by auto
qed

lemma bpe_after_Suc:
  "bpe_after (Suc k) ls = Some s' \<Longrightarrow>
     \<exists>s. bpe_after k ls = Some s \<and> merge_step tf bpe_rf s = Continue s'"
  unfolding bpe_after_def by (auto split: sum.splits dest: iterations_Suc_last simp del: iterations.simps)

lemma bpes_after_Suc:
  "bpes_after (Suc k) ls = Some s' \<Longrightarrow>
     \<exists>s. bpes_after k ls = Some s \<and> merge_step unit_weight bpes_rf s = Continue s'"
  unfolding bpes_after_def by (auto split: sum.splits dest: iterations_Suc_last simp del: iterations.simps)


lemma after_step_the:
  assumes "A1 = Some s'" "\<exists>s. A0 = Some s \<and> stepf s = Continue s'"
  shows "stepf (the A0) = Continue (the A1)"
  using assms by auto

lemma merge_step_selected:
  assumes inv: "state_inv s" and st: "merge_step wt rf s = Continue s'"
  shows "merges s' = merges s @ [last (merges s')]
       \<and> merge_pair (last (merges s')) = fst (find_best wt (words s) (pair_to_word_indices s))
       \<and> merge_pair (last (merges s')) \<in> fst ` set (pair_to_word_indices s)
       \<and> 2 \<le> int32 (weighted_frequency wt (words s) (merge_pair (last (merges s'))))
       \<and> snd (find_best wt (words s) (pair_to_word_indices s))
            = int32 (weighted_frequency wt (words s) (merge_pair (last (merges s'))))
       \<and> (\<forall>kv \<in> set (pair_to_word_indices s).
             int32 (weighted_frequency wt (words s) (fst kv))
               \<le> int32 (weighted_frequency wt (words s) (merge_pair (last (merges s')))))"
proof -
  let ?m = "pair_to_word_indices s" and ?ws = "words s"
  let ?bp = "fst (find_best wt ?ws ?m)"
  from inv have wf: "index_wf ?m" and tr: "index_tracks ?ws ?m" by (simp_all add: state_inv_def)
  from st have bf: "2 \<le> snd (find_best wt ?ws ?m)"
    and mp: "merge_pair (last (merges s')) = ?bp" and ms: "merges s' = merges s @ [last (merges s')]"
    by (simp_all add: merge_step_Continue_iff Let_def)
  from bf have pos: "0 < snd (find_best wt ?ws ?m)" by simp
  from best_pair_facts[OF wf tr pos] obtain idxs where
    mem: "(?bp, idxs) \<in> set ?m"
    and eq: "snd (find_best wt ?ws ?m) = int32 (weighted_frequency wt ?ws ?bp)" by blast
  have key: "?bp \<in> fst ` set ?m" using mem by force
  have le: "int32 (weighted_frequency wt ?ws (fst kv)) \<le> int32 (weighted_frequency wt ?ws ?bp)"
    if "kv \<in> set ?m" for kv
  proof -
    from that have m2: "(fst kv, snd kv) \<in> set ?m" by simp
    have "int32 (weighted_frequency wt ?ws (fst kv)) = pair_freq wt ?ws (fst kv) (snd kv)"
      using entry_freq[OF wf tr m2] by simp
    also have "\<dots> \<le> snd (find_best wt ?ws ?m)" by (rule find_best_max[OF m2])
    finally show ?thesis using eq by simp
  qed
  show ?thesis using ms mp key bf eq le by simp
qed

lemma total_tokens_loop_start: "words (loop_start st) = l_words st \<and> merges (loop_start st) = []"
  by (simp add: loop_start_def)

lemma merge_step_rule:
  assumes inv: "state_inv s" and st: "merge_step wt rf s = Continue s'"
  shows "frequency (last (merges s'))
           = rf (words s) (id_to_token (symtab s') ! nat (new_token (last (merges s'))))
               (snd (find_best wt (words s) (pair_to_word_indices s)))
         \<and> id_to_token (symtab s') ! nat (new_token (last (merges s'))) \<noteq> []"
proof -
  define bp where "bp = fst (find_best wt (words s) (pair_to_word_indices s))"
  define str where "str = id_to_token (symtab s) ! nat (fst bp) @ id_to_token (symtab s) ! nat (snd bp)"
  from inv have ok: "symbols_ok (symtab s)" by (simp add: state_inv_def)
  from st have r: "last (merges s') = \<lparr>merge_pair = bp, new_token = fst (get_token_id str (symtab s)),
                        frequency = rf (words s) str (snd (find_best wt (words s) (pair_to_word_indices s)))\<rparr>"
    and tab: "symtab s' = snd (get_token_id str (symtab s))"
    by (simp_all add: merge_step_Continue_iff Let_def bp_def str_def)
  from get_token_id_cases[OF ok, of str]
  have e: "id_to_token (snd (get_token_id str (symtab s))) ! nat (fst (get_token_id str (symtab s))) = str"
    and v: "valid_id (snd (get_token_id str (symtab s))) (fst (get_token_id str (symtab s)))"
    by blast+
  have "symbols_ok (symtab s')" using merge_step_inv[OF inv st] by (simp add: state_inv_def)
  then have "str \<noteq> []" using symbols_nonempty[of "symtab s'" "fst (get_token_id str (symtab s))"] v e
    by (simp add: tab)
  then show ?thesis using e by (simp add: r tab)
qed

lemma fold_int32_acc:
  "fold (\<lambda>x acc. int32 (acc + f x)) xs (int32 a) = int32 (a + sum_list (map f xs))"
proof (induction xs arbitrary: a)
  case Nil
  then show ?case by simp
next
  case (Cons x xs)
  have "int32 (int32 a + f x) = int32 (a + f x)" by (rule int32_add_left)
  then show ?case using Cons.IH[of "a + f x"] by (simp add: add.assoc)
qed

lemma prefix_iff_take: "prefix sub ys \<longleftrightarrow> take (length sub) ys = sub"
proof
  assume "prefix sub ys"
  then obtain zs where "ys = sub @ zs" by (auto simp: prefix_def)
  then show "take (length sub) ys = sub" by simp
next
  assume "take (length sub) ys = sub"
  then have "ys = sub @ drop (length sub) ys" by (metis append_take_drop_id)
  then show "prefix sub ys" by (metis prefixI)
qed

lemma occurrences_Cons:
  "occurrences (c # cs) sub
     = (if take (length sub) (c # cs) = sub then 1 else 0) + occurrences cs sub"
proof -
  have u: "[0..<length (c # cs)] = 0 # map Suc [0..<length cs]"
    by (simp add: upt_conv_Cons map_Suc_upt del: upt_Suc)
  have "filter (\<lambda>i. take (length sub) (drop i (c # cs)) = sub) (map Suc [0..<length cs])
          = map Suc (filter (\<lambda>i. take (length sub) (drop i cs) = sub) [0..<length cs])"
    by (simp add: filter_map comp_def)
  then show ?thesis unfolding occurrences_def u by simp
qed

lemma count_occurrences_exact:
  "sub \<noteq> [] \<Longrightarrow> count_occurrences str sub = int (occurrences str sub)"
proof (induction str)
  case Nil
  then show ?case by (simp add: occurrences_def)
next
  case (Cons c cs)
  then show ?case by (simp add: occurrences_Cons prefix_iff_take)
qed

lemma bpes_rf_sum:
  assumes "str \<noteq> []"
  shows "bpes_rf ws str bf = int32 (sum_list (map (\<lambda>w. int (occurrences (original w) str)) ws))"
proof -
  have "bpes_rf ws str bf = int32 (0 + sum_list (map (\<lambda>w. count_occurrences (original w) str) ws))"
    unfolding bpes_rf_def
    using fold_int32_acc[of "\<lambda>w. count_occurrences (original w) str" ws 0]
    by (simp add: int32_zero)
  also have "map (\<lambda>w. count_occurrences (original w) str) ws
               = map (\<lambda>w. int (occurrences (original w) str)) ws"
    by (simp add: count_occurrences_exact[OF assms])
  finally show ?thesis by simp
qed





lemma no_spacer_add:
  "no_spacer_pairs pm \<Longrightarrow> fst p \<noteq> 0 \<Longrightarrow> snd p \<noteq> 0 \<Longrightarrow> no_spacer_pairs (addOccurrence pm p node)"
  unfolding no_spacer_pairs_def addOccurrence_def Let_def by (simp add: dom_update)

lemma no_spacer_delete: "no_spacer_pairs pm \<Longrightarrow> no_spacer_pairs (AList.delete p pm)"
  unfolding no_spacer_pairs_def using dom_delete_subset[of p pm] by blast

lemma no_spacer_remove: "no_spacer_pairs pm \<Longrightarrow> no_spacer_pairs (removeOccurrence pm p node)"
proof (cases "map_of pm p")
  case None
  assume "no_spacer_pairs pm"
  with None show ?thesis by (simp add: removeOccurrence_def)
next
  case (Some d)
  assume ok: "no_spacer_pairs pm"
  from Some have "p \<in> fst ` set pm" by (metis domI dom_map_of_conv_image_fst)
  with ok have p: "fst p \<noteq> 0 \<and> snd p \<noteq> 0" unfolding no_spacer_pairs_def by blast
  show ?thesis
  proof (cases "removeAll node (occ_pd d) = []")
    case True
    with Some show ?thesis by (simp add: removeOccurrence_def no_spacer_delete[OF ok])
  next
    case False
    have "no_spacer_pairs (AList.update p \<lparr>freq = int (length (removeAll node (occ_pd d))),
              occ_pd = removeAll node (occ_pd d)\<rparr> pm)"
      using ok p unfolding no_spacer_pairs_def by (simp add: dom_update)
    with Some False show ?thesis by (simp add: removeOccurrence_def Let_def)
  qed
qed

lemma splice_token_left: "token (splice bp nid left right h left) = nid"
  by (simp add: splice_def Let_def split: option.splits)

lemma splice_spacer:
  assumes "token (h a) = 0" "token (h left) \<noteq> 0" "token (h right) \<noteq> 0"
  shows "token (splice bp nid left right h a) = 0
       \<and> removed (splice bp nid left right h a) = removed (h a)"
proof -
  have "a \<noteq> left" "a \<noteq> right" using assms by auto
  then show ?thesis using assms(1) by (simp add: splice_def Let_def split: option.splits)
qed

lemma no_spacer_update_left:
  assumes "no_spacer_pairs pm" "token (h left) = nid"
  shows "no_spacer_pairs (update_left_pair bp nid left h pm)"
  using assms
  by (auto simp: update_left_pair_def no_spacer_add no_spacer_remove split: option.splits)

lemma no_spacer_update_right:
  assumes "no_spacer_pairs pm" "token (h left) = nid"
  shows "no_spacer_pairs (update_right_pair bp nid left right h pm)"
  using assms
  by (auto simp: update_right_pair_def no_spacer_add no_spacer_remove split: option.splits)

lemma process_occ_no_spacer:
  assumes "no_spacer_pairs pm"
  shows "no_spacer_pairs (snd (process_occ bp nid left (h, pm)))"
  using assms
  by (auto simp: process_occ_def Let_def splice_token_left
           intro!: no_spacer_update_right no_spacer_update_left split: option.splits)

lemma process_occ_spacer:
  assumes "fst bp \<noteq> 0" "snd bp \<noteq> 0" "token (h a) = 0"
  shows "token (fst (process_occ bp nid left (h, pm)) a) = 0
       \<and> removed (fst (process_occ bp nid left (h, pm)) a) = removed (h a)"
  using assms
  by (auto simp: process_occ_def Let_def splice_spacer split: option.splits)

lemma fold_process_occ:
  assumes "no_spacer_pairs pm" "fst bp \<noteq> 0" "snd bp \<noteq> 0"
  shows "no_spacer_pairs (snd (fold (process_occ bp nid) occs (h, pm)))
       \<and> (\<forall>a. token (h a) = 0 \<longrightarrow>
              token (fst (fold (process_occ bp nid) occs (h, pm)) a) = 0
              \<and> removed (fst (fold (process_occ bp nid) occs (h, pm)) a) = removed (h a))"
  using assms(1)
proof (induction occs arbitrary: h pm)
  case Nil
  then show ?case by simp
next
  case (Cons left occs)
  let ?h = "fst (process_occ bp nid left (h, pm))" and ?pm = "snd (process_occ bp nid left (h, pm))"
  have f: "fold (process_occ bp nid) (left # occs) (h, pm) = fold (process_occ bp nid) occs (?h, ?pm)"
    by simp
  have 1: "no_spacer_pairs ?pm" by (rule process_occ_no_spacer[OF Cons.prems])
  note ih = Cons.IH[OF 1, of ?h]
  show ?case
    unfolding f using ih process_occ_spacer[OF assms(2,3), of h _ nid left pm] by auto
qed

lemma find_bestPair_fold:
  "fold (\<lambda>entry best. if freq (snd entry) > snd best then (fst entry, freq (snd entry)) else best)
        pm b0 = b0
   \<or> fst (fold (\<lambda>entry best. if freq (snd entry) > snd best then (fst entry, freq (snd entry)) else best)
        pm b0) \<in> fst ` set pm"
proof (induction pm arbitrary: b0)
  case Nil
  then show ?case by simp
next
  case (Cons e pm)
  let ?b1 = "if freq (snd e) > snd b0 then (fst e, freq (snd e)) else b0"
  from Cons[of ?b1] show ?case by (auto split: if_splits)
qed

lemma find_bestPair_key:
  assumes "2 \<le> snd (find_bestPair pm)"
  shows "fst (find_bestPair pm) \<in> fst ` set pm"
  using find_bestPair_fold[of pm "((- 1, - 1), 0)"] assms unfolding find_bestPair_def by auto

lemma bpe2_step_Continue:
  assumes "bpe2_step s = Continue s'"
  shows "2 \<le> snd (find_bestPair (pairMap s))
    \<and> store s' = fst (fold (process_occ (fst (find_bestPair (pairMap s)))
          (fst (get_token_id (id_to_token (symtab2 s) ! nat (fst (fst (find_bestPair (pairMap s))))
                               @ id_to_token (symtab2 s) ! nat (snd (fst (find_bestPair (pairMap s)))))
                (symtab2 s))))
          (occ_pd (snd (pairMap_at (pairMap s) (fst (find_bestPair (pairMap s))))))
          (store s, fst (pairMap_at (pairMap s) (fst (find_bestPair (pairMap s))))))
    \<and> pairMap s' = AList.delete (fst (find_bestPair (pairMap s)))
         (snd (fold (process_occ (fst (find_bestPair (pairMap s)))
          (fst (get_token_id (id_to_token (symtab2 s) ! nat (fst (fst (find_bestPair (pairMap s))))
                               @ id_to_token (symtab2 s) ! nat (snd (fst (find_bestPair (pairMap s)))))
                (symtab2 s))))
          (occ_pd (snd (pairMap_at (pairMap s) (fst (find_bestPair (pairMap s))))))
          (store s, fst (pairMap_at (pairMap s) (fst (find_bestPair (pairMap s)))))))"
  using assms by (auto simp: bpe2_step_def Let_def split: if_splits)

lemma bpe2_step_no_spacer:
  assumes ok: "no_spacer_pairs (pairMap s)" and st: "bpe2_step s = Continue s'"
  shows "no_spacer_pairs (pairMap s')
       \<and> fst (fst (find_bestPair (pairMap s))) \<noteq> 0 \<and> snd (fst (find_bestPair (pairMap s))) \<noteq> 0
       \<and> (\<forall>a. token (store s a) = 0 \<longrightarrow>
              token (store s' a) = 0 \<and> removed (store s' a) = removed (store s a))"
proof -
  let ?bp = "fst (find_bestPair (pairMap s))"
  note c = bpe2_step_Continue[OF st]
  from c have bf: "2 \<le> snd (find_bestPair (pairMap s))" by blast
  have key: "?bp \<in> fst ` set (pairMap s)" by (rule find_bestPair_key[OF bf])
  with ok have nz: "fst ?bp \<noteq> 0" "snd ?bp \<noteq> 0" unfolding no_spacer_pairs_def by blast+
  from key have "map_of (pairMap s) ?bp \<noteq> None"
    by (simp add: map_of_eq_None_iff)
  then have pa: "fst (pairMap_at (pairMap s) ?bp) = pairMap s"
    by (auto simp: pairMap_at_def)
  note F = fold_process_occ[OF ok nz]
  show ?thesis
    using c nz F by (simp add: pa no_spacer_delete)
qed


lemma buildPairMap_loop_no_spacer:
  assumes "buildPairMap_loop h pm cur = Some pm'" "no_spacer_pairs pm"
  shows "no_spacer_pairs pm'"
proof -
  have "no_spacer_pairs pm \<longrightarrow> no_spacer_pairs pm'"
  proof (rule buildPairMap_loop.raw_induct[where P = "\<lambda>h pm cur pm'. no_spacer_pairs pm \<longrightarrow> no_spacer_pairs pm'", OF _ assms(1)])
    fix f :: "(nat \<Rightarrow> Node) \<Rightarrow> PairMap \<Rightarrow> nat option \<Rightarrow> PairMap option"
    fix h :: "nat \<Rightarrow> Node" and pm :: PairMap and cur :: "nat option" and pm' :: PairMap
    assume ih: "\<And>h pm cur pm'. f h pm cur = Some pm' \<Longrightarrow> no_spacer_pairs pm \<longrightarrow> no_spacer_pairs pm'"
    assume r: "(case cur of None \<Rightarrow> Some pm
        | Some c \<Rightarrow> (case next_nd (h c) of None \<Rightarrow> Some pm
            | Some nx \<Rightarrow> f h (if token (h c) \<noteq> 0 \<and> token (h nx) \<noteq> 0
                  then addOccurrence pm (token (h c), token (h nx)) c else pm) (Some nx))) = Some pm'"
    show "no_spacer_pairs pm \<longrightarrow> no_spacer_pairs pm'"
    proof
      assume ok: "no_spacer_pairs pm"
      show "no_spacer_pairs pm'"
      proof (cases cur)
        case None
        with r ok show ?thesis by simp
      next
        case (Some c)
        show ?thesis
        proof (cases "next_nd (h c)")
          case None
          with r ok Some show ?thesis by simp
        next
          case (Some nx)
          let ?pm = "if token (h c) \<noteq> 0 \<and> token (h nx) \<noteq> 0
                  then addOccurrence pm (token (h c), token (h nx)) c else pm"
          from r \<open>cur = Some c\<close> Some have "f h ?pm (Some nx) = Some pm'" by simp
          moreover have "no_spacer_pairs ?pm" using ok by (simp add: no_spacer_add)
          ultimately show ?thesis using ih by blast
        qed
      qed
    qed
  qed
  with assms(2) show ?thesis by blast
qed

lemma buildPairMap_loop_total:
  assumes "\<forall>i. Suc i < m \<longrightarrow> next_nd (h i) = Some (Suc i)" "next_nd (h (m - 1)) = None" "c < m"
  shows "\<exists>pm'. buildPairMap_loop h pm (Some c) = Some pm'"
  using assms(3)
proof (induction "m - c" arbitrary: c pm)
  case 0
  then show ?case by simp
next
  case (Suc d)
  show ?case
  proof (cases "Suc c < m")
    case True
    with assms(1) have n: "next_nd (h c) = Some (Suc c)" by blast
    from Suc.hyps(2) have "d = m - Suc c" by simp
    from Suc.hyps(1)[OF this True] obtain pm' where
      "buildPairMap_loop h (if token (h c) \<noteq> 0 \<and> token (h (Suc c)) \<noteq> 0
                  then addOccurrence pm (token (h c), token (h (Suc c))) c else pm) (Some (Suc c)) = Some pm'"
      by blast
    then show ?thesis by (subst buildPairMap_loop.simps) (simp add: n)
  next
    case False
    with Suc.prems have "c = m - 1" by simp
    with assms(2) have "next_nd (h c) = None" by simp
    then show ?thesis by (subst buildPairMap_loop.simps) simp
  qed
qed

lemma buildPairMap_total:
  assumes "chain s m"
  shows "\<exists>s'. buildPairMap s = Some s'"
proof (cases "m = 0")
  case True
  with assms have "head s = None" by (simp add: chain_def)
  then show ?thesis by (simp add: buildPairMap_def buildPairMap_loop.simps)
next
  case False
  with assms have h: "head s = Some 0"
    and n: "\<forall>i. Suc i < m \<longrightarrow> next_nd (store s i) = Some (Suc i)"
    and l: "next_nd (store s (m - 1)) = None"
    by (simp_all add: chain_def)
  from False have "0 < m" by simp
  from buildPairMap_loop_total[OF n l this, of "[]"] h show ?thesis
    by (auto simp: buildPairMap_def)
qed

lemma n_nodes_append:
  "n_nodes (appendNode (fst (new_Node t s)) (snd (new_Node t s))) = Suc (n_nodes s)"
  by (simp add: new_Node_def appendNode_def Let_def split: option.splits)

lemma chain_append:
  assumes "chain s (n_nodes s)"
  shows "chain (appendNode (fst (new_Node t s)) (snd (new_Node t s))) (Suc (n_nodes s))"
proof (cases "n_nodes s = 0")
  case True
  with assms have "head s = None" "tail s = None" by (simp_all add: chain_def)
  with True show ?thesis by (simp add: new_Node_def appendNode_def chain_def)
next
  case False
  with assms have h: "head s = Some 0" and t: "tail s = Some (n_nodes s - 1)"
    and n: "\<forall>i. Suc i < n_nodes s \<longrightarrow> next_nd (store s i) = Some (Suc i)"
    and l: "next_nd (store s (n_nodes s - 1)) = None"
    and p0: "prev (store s 0) = None"
    and p: "\<forall>i. Suc i < n_nodes s \<longrightarrow> prev (store s (Suc i)) = Some i"
    by (simp_all add: chain_def)
  from False obtain m where m: "n_nodes s = Suc m" by (cases "n_nodes s") auto
  show ?thesis
    using h t n l p0 p m
    by (auto simp: new_Node_def appendNode_def chain_def Let_def less_Suc_eq)
qed

lemma chain_symtab: "chain (s\<lparr>symtab2 := y\<rparr>) m = chain s m"
  by (simp add: chain_def)

lemma chain_add_char:
  assumes "chain s (n_nodes s)"
  shows "chain (add_char c s) (n_nodes (add_char c s))"
proof -
  let ?s = "s\<lparr>symtab2 := snd (get_token_id [c] (symtab2 s))\<rparr>"
  have "chain ?s (n_nodes ?s)" using assms by (simp add: chain_symtab)
  from chain_append[OF this, of "fst (get_token_id [c] (symtab2 s))"] show ?thesis
    by (simp add: add_char_def Let_def n_nodes_append)
qed

lemma chain_fold_add_char:
  "chain s (n_nodes s) \<Longrightarrow> chain (fold add_char line s) (n_nodes (fold add_char line s))"
  by (induction line arbitrary: s) (simp_all add: chain_add_char)

lemma chain_add_line:
  assumes "chain s (n_nodes s)"
  shows "chain (add_line line s) (n_nodes (add_line line s))"
  using assms chain_append[OF chain_fold_add_char[OF assms, of line], of 0]
  by (simp add: add_line_def Let_def n_nodes_append)

lemma chain_fold_add_line:
  "chain s (n_nodes s) \<Longrightarrow> chain (fold add_line ls s) (n_nodes (fold add_line ls s))"
  by (induction ls arbitrary: s) (simp_all add: chain_add_line)

lemma chain_init: "chain bpe2_init (n_nodes bpe2_init)"
  by (simp add: chain_def bpe2_init_def)

lemma chain_drop_last_spacer:
  assumes "chain s m"
  shows "\<exists>m'. chain (drop_last_spacer s) m'"
proof (cases "m = 0")
  case True
  with assms have "tail s = None" by (simp add: chain_def)
  then have "drop_last_spacer s = s" by (simp add: drop_last_spacer_def)
  with assms show ?thesis by auto
next
  case False
  with assms have h: "head s = Some 0" and t: "tail s = Some (m - 1)"
    and n: "\<forall>i. Suc i < m \<longrightarrow> next_nd (store s i) = Some (Suc i)"
    and l: "next_nd (store s (m - 1)) = None"
    and p0: "prev (store s 0) = None"
    and p: "\<forall>i. Suc i < m \<longrightarrow> prev (store s (Suc i)) = Some i"
    by (simp_all add: chain_def)
  show ?thesis
  proof (cases "token (store s (m - 1)) = 0")
    case nz: False
    with t have "drop_last_spacer s = s" by (simp add: drop_last_spacer_def)
    with assms show ?thesis by auto
  next
    case True
    show ?thesis
    proof (cases "m = 1")
      case True
      with p0 t \<open>token (store s (m - 1)) = 0\<close>
      have "drop_last_spacer s = s\<lparr>tail := None, head := None\<rparr>"
        by (simp add: drop_last_spacer_def)
      then have "chain (drop_last_spacer s) 0" by (simp add: chain_def)
      then show ?thesis ..
    next
      case m1: False
      with False obtain k where k: "m = Suc (Suc k)" by (cases m; cases "m - 1") auto
      with p have pv: "prev (store s (Suc k)) = Some k" by simp
      with t True k have d: "drop_last_spacer s
           = s\<lparr>tail := Some k, store := (store s)(k := (store s k)\<lparr>next_nd := None\<rparr>)\<rparr>"
        by (simp add: drop_last_spacer_def)
      have "chain (drop_last_spacer s) (Suc k)"
        unfolding d using h n p0 p k by (auto simp: chain_def)
      then show ?thesis ..
    qed
  qed
qed

lemma bpe2_start_total: "\<exists>s0. bpe2_start ls = Some s0"
proof -
  from chain_drop_last_spacer[OF chain_fold_add_line[OF chain_init, of ls]]
  obtain m where "chain (drop_last_spacer (fold add_line ls bpe2_init)) m" by blast
  from buildPairMap_total[OF this] show ?thesis by (simp add: bpe2_start_def)
qed

lemma bpe2_start_no_spacer:
  assumes "bpe2_start ls = Some s0"
  shows "no_spacer_pairs (pairMap s0)"
proof -
  from assms obtain pm where l: "buildPairMap_loop (store (drop_last_spacer (fold add_line ls bpe2_init))) []
        (head (drop_last_spacer (fold add_line ls bpe2_init))) = Some pm"
    and s0: "s0 = (drop_last_spacer (fold add_line ls bpe2_init))\<lparr>pairMap := pm\<rparr>"
    by (auto simp: bpe2_start_def buildPairMap_def)
  have "no_spacer_pairs []" by (simp add: no_spacer_pairs_def)
  from buildPairMap_loop_no_spacer[OF l this] s0 show ?thesis by simp
qed

lemma bpe2_iterations_no_spacer:
  "bpe2_iterations k s0 = Some s \<Longrightarrow> no_spacer_pairs (pairMap s0) \<Longrightarrow> no_spacer_pairs (pairMap s)"
proof (induction k arbitrary: s0)
  case 0
  then show ?case by simp
next
  case (Suc k)
  from Suc.prems(1) obtain s1 where c: "bpe2_step s0 = Continue s1" and r: "bpe2_iterations k s1 = Some s"
    by (auto split: step.splits)
  from bpe2_step_no_spacer[OF Suc.prems(2) c] have "no_spacer_pairs (pairMap s1)" by blast
  from Suc.IH[OF r this] show ?case .
qed

lemma bpe2_after_no_spacer:
  assumes "bpe2_after k ls = Some s"
  shows "no_spacer_pairs (pairMap s)"
proof -
  from assms obtain s0 where a: "bpe2_start ls = Some s0" and b: "bpe2_iterations k s0 = Some s"
    by (auto simp: bpe2_after_def split: option.splits)
  from bpe2_iterations_no_spacer[OF b bpe2_start_no_spacer[OF a]] show ?thesis .
qed

lemma process_occ_removed:
  assumes "removed (fst (process_occ bp nid left (h, pm)) a)" "\<not> removed (h a)"
  shows "next_nd (h left) = Some a \<and> token (h left) = fst bp \<and> token (h a) = snd bp"
  using assms
  by (auto simp: process_occ_def Let_def splice_def split: option.splits if_splits)



lemma bpe2_iterations_spacers:
  "bpe2_iterations k s0 = Some s \<Longrightarrow> no_spacer_pairs (pairMap s0) \<Longrightarrow> token (store s0 a) = 0
   \<Longrightarrow> token (store s a) = 0 \<and> removed (store s a) = removed (store s0 a)"
proof (induction k arbitrary: s0)
  case 0
  then show ?case by simp
next
  case (Suc k)
  from Suc.prems(1) obtain s1 where c: "bpe2_step s0 = Continue s1" and r: "bpe2_iterations k s1 = Some s"
    by (auto split: step.splits)
  note st = bpe2_step_no_spacer[OF Suc.prems(2) c]
  from st have ok: "no_spacer_pairs (pairMap s1)" by blast
  from st Suc.prems(3) have a: "token (store s1 a) = 0" "removed (store s1 a) = removed (store s0 a)"
    by blast+
  from Suc.IH[OF r ok a(1)] a(2) show ?case by simp
qed

section \<open>The claims\<close>

text \<open>
  C1. After every merge iteration of \<^verbatim>\<open>src/bpe.cpp\<close> and of \<^verbatim>\<open>src/bpes/bpe_sa.cpp\<close>, on every
  input, the pair index tracks adjacency exactly: every word index registered under a pair
  is a word whose current tokens hold that pair as neighbours, and every pair of neighbours
  of every word is a key of the index with that word registered under it.
\<close>

theorem pair_index_exact_after_every_iteration:
  "(bpe_after k ls = Some s \<longrightarrow> index_exact (words s) (pair_to_word_indices s))
   \<and> (bpe_sa_after k ls = Some t \<longrightarrow> index_exact (words t) (pair_to_word_indices t))"
proof (intro conjI impI)
  assume "bpe_after k ls = Some s"
  then show "index_exact (words s) (pair_to_word_indices s)"
    by (intro state_inv_exact bpe_after_inv)
next
  assume "bpe_sa_after k ls = Some t"
  then show "index_exact (words t) (pair_to_word_indices t)"
    by (intro state_inv_exact bpe_sa_after_inv)
qed

theorem pair_index_exact_witness:
  "map tokens (words (the (bpe_after 1 [''abab 3 1'', ''cab 2 5'']))) = [[3, 3], [2, 3]]
   \<and> index_exact (words (the (bpe_after 1 [''abab 3 1'', ''cab 2 5''])))
        (pair_to_word_indices (the (bpe_after 1 [''abab 3 1'', ''cab 2 5''])))
   \<and> map tokens (words (the (bpe_sa_after 1 [''abab 3 1'', ''cab 2 5'']))) = [[3, 3], [2, 3]]
   \<and> index_exact (words (the (bpe_sa_after 1 [''abab 3 1'', ''cab 2 5''])))
        (pair_to_word_indices (the (bpe_sa_after 1 [''abab 3 1'', ''cab 2 5''])))"
proof -
  have a: "bpe_after 1 [''abab 3 1'', ''cab 2 5''] \<noteq> None" by code_simp
  have b: "bpe_sa_after 1 [''abab 3 1'', ''cab 2 5''] \<noteq> None" by code_simp
  have c: "map tokens (words (the (bpe_after 1 [''abab 3 1'', ''cab 2 5'']))) = [[3, 3], [2, 3]]"
    by code_simp
  have d: "map tokens (words (the (bpe_sa_after 1 [''abab 3 1'', ''cab 2 5'']))) = [[3, 3], [2, 3]]"
    by code_simp
  from a have a': "bpe_after 1 [''abab 3 1'', ''cab 2 5''] = Some (the (bpe_after 1 [''abab 3 1'', ''cab 2 5'']))"
    by simp
  from b have b': "bpe_sa_after 1 [''abab 3 1'', ''cab 2 5''] = Some (the (bpe_sa_after 1 [''abab 3 1'', ''cab 2 5'']))"
    by simp
  from pair_index_exact_after_every_iteration[of 1 "[''abab 3 1'', ''cab 2 5'']"
      "the (bpe_after 1 [''abab 3 1'', ''cab 2 5''])" "the (bpe_sa_after 1 [''abab 3 1'', ''cab 2 5''])"]
    a' b' c d show ?thesis by blast
qed

text \<open>
  C9. A merge iteration leaves every word that is not registered under the chosen pair as it
  was (its tokens included) and keeps the number of words; \<^verbatim>\<open>tf\<close> and \<^verbatim>\<open>df\<close> of every word of
  \<^verbatim>\<open>src/bpe.cpp\<close> and \<^verbatim>\<open>original\<close> of every word of \<^verbatim>\<open>src/bpes/bpe_sa.cpp\<close> are the same after
  one iteration and after the whole loop.
\<close>

theorem merge_iteration_frame:
  fixes s s' s'' :: "WordEntryTF bpe_state" and t t' t'' :: "WordEntryOrig bpe_state"
  shows
  "(merge_step tf rf s = Continue s' \<longrightarrow>
      length (words s') = length (words s)
      \<and> (\<forall>i. i \<notin> registered (pair_to_word_indices s)
                    (fst (find_best tf (words s) (pair_to_word_indices s)))
             \<longrightarrow> words s' ! i = words s ! i)
      \<and> map tf (words s') = map tf (words s) \<and> map df (words s') = map df (words s))
   \<and> (merge_step unit_weight rf' t = Continue t' \<longrightarrow>
      length (words t') = length (words t)
      \<and> (\<forall>i. i \<notin> registered (pair_to_word_indices t)
                    (fst (find_best unit_weight (words t) (pair_to_word_indices t)))
             \<longrightarrow> words t' ! i = words t ! i)
      \<and> map original (words t') = map original (words t))
   \<and> (merge_loop tf rf s = Some s'' \<longrightarrow>
        map tf (words s'') = map tf (words s) \<and> map df (words s'') = map df (words s))
   \<and> (merge_loop unit_weight rf' t = Some t'' \<longrightarrow>
        map original (words t'') = map original (words t))"
proof (intro conjI impI allI)
  assume st: "merge_step tf rf s = Continue s'"
  show "length (words s') = length (words s)" by (rule merge_step_length[OF st])
  show "map tf (words s') = map tf (words s)"
    by (rule merge_step_frame[where g=tf, OF _ st]) simp
  show "map df (words s') = map df (words s)"
    by (rule merge_step_frame[where g=df, OF _ st]) simp
  fix i
  assume "i \<notin> registered (pair_to_word_indices s) (fst (find_best tf (words s) (pair_to_word_indices s)))"
  then show "words s' ! i = words s ! i" by (rule merge_step_untouched[OF st])
next
  assume st: "merge_step unit_weight rf' t = Continue t'"
  show "length (words t') = length (words t)" by (rule merge_step_length[OF st])
  show "map original (words t') = map original (words t)"
    by (rule merge_step_frame[where g=original, OF _ st]) simp
  fix i
  assume "i \<notin> registered (pair_to_word_indices t) (fst (find_best unit_weight (words t) (pair_to_word_indices t)))"
  then show "words t' ! i = words t ! i" by (rule merge_step_untouched[OF st])
next
  assume l: "merge_loop tf rf s = Some s''"
  show "map tf (words s'') = map tf (words s)"
    by (rule merge_loop_frame[where g=tf, OF _ l]) simp
  show "map df (words s'') = map df (words s)"
    by (rule merge_loop_frame[where g=df, OF _ l]) simp
next
  assume l: "merge_loop unit_weight rf' t = Some t''"
  show "map original (words t'') = map original (words t)"
    by (rule merge_loop_frame[where g=original, OF _ l]) simp
qed

theorem merge_iteration_frame_witness:
  "length (words (the (bpe_after 1 [''abab 3 1'', ''cab 2 5'', ''xyz 4 4'']))) = 3
   \<and> words (the (bpe_after 1 [''abab 3 1'', ''cab 2 5'', ''xyz 4 4''])) ! 2
       = words (the (bpe_after 0 [''abab 3 1'', ''cab 2 5'', ''xyz 4 4''])) ! 2
   \<and> map tf (words (the (bpe_after 1 [''abab 3 1'', ''cab 2 5'', ''xyz 4 4'']))) = [3, 2, 4]
   \<and> map df (words (the (bpe_after 1 [''abab 3 1'', ''cab 2 5'', ''xyz 4 4'']))) = [1, 5, 4]
   \<and> words (the (bpes_after 1 [''abab'', ''cab'', ''xyz''])) ! 2
       = words (the (bpes_after 0 [''abab'', ''cab'', ''xyz''])) ! 2
   \<and> map original (words (the (bpes_after 1 [''abab'', ''cab'', ''xyz'']))) = [''abab'', ''cab'', ''xyz'']
   \<and> map tf (words (the (merge_loop tf bpe_rf (the (bpe_after 0 [''abab 3 1'', ''cab 2 5'', ''xyz 4 4'']))))) = [3, 2, 4]
   \<and> map original (words (the (merge_loop unit_weight bpes_rf (the (bpes_after 0 [''abab'', ''cab'', ''xyz'']))))) 
        = [''abab'', ''cab'', ''xyz'']"
proof -
  let ?L = "[''abab 3 1'', ''cab 2 5'', ''xyz 4 4'']" and ?M = "[''abab'', ''cab'', ''xyz'']"
  let ?s0 = "the (bpe_after 0 ?L)" and ?s1 = "the (bpe_after 1 ?L)"
  let ?t0 = "the (bpes_after 0 ?M)" and ?t1 = "the (bpes_after 1 ?M)"
  have a1: "bpe_after 1 ?L = Some ?s1"
  proof -
    have "bpe_after 1 ?L \<noteq> None" by code_simp
    then show ?thesis by simp
  qed
  have b1: "bpes_after 1 ?M = Some ?t1"
  proof -
    have "bpes_after 1 ?M \<noteq> None" by code_simp
    then show ?thesis by simp
  qed
  have st: "merge_step tf bpe_rf ?s0 = Continue ?s1"
    using bpe_after_Suc[of 0 ?L ?s1] a1 by (intro after_step_the) simp_all
  have tt: "merge_step unit_weight bpes_rf ?t0 = Continue ?t1"
    using bpes_after_Suc[of 0 ?M ?t1] b1 by (intro after_step_the) simp_all
  have n1: "2 \<notin> registered (pair_to_word_indices ?s0) (fst (find_best tf (words ?s0) (pair_to_word_indices ?s0)))"
    by code_simp
  have n2: "2 \<notin> registered (pair_to_word_indices ?t0) (fst (find_best unit_weight (words ?t0) (pair_to_word_indices ?t0)))"
    by code_simp
  have l1: "merge_loop tf bpe_rf ?s0 = Some (the (merge_loop tf bpe_rf ?s0))"
  proof -
    have "merge_loop tf bpe_rf ?s0 \<noteq> None" by code_simp
    then show ?thesis by simp
  qed
  have l2: "merge_loop unit_weight bpes_rf ?t0 = Some (the (merge_loop unit_weight bpes_rf ?t0))"
  proof -
    have "merge_loop unit_weight bpes_rf ?t0 \<noteq> None" by code_simp
    then show ?thesis by simp
  qed
  have v0: "length (words ?s0) = 3" "map tf (words ?s0) = [3, 2, 4]" "map df (words ?s0) = [1, 5, 4]"
    "map original (words ?t0) = ?M"
    by code_simp+
  from merge_iteration_frame[of bpe_rf ?s0 ?s1 bpes_rf ?t0 ?t1
      "the (merge_loop tf bpe_rf ?s0)" "the (merge_loop unit_weight bpes_rf ?t0)"]
    st tt n1 n2 l1 l2 v0
  show ?thesis by simp
qed




text \<open>
  C5, as the code has it. For every input that \<^verbatim>\<open>src/bpe.cpp\<close> loads, the merge loop
  terminates; it makes at most as many merges as the initial segmentation has tokens; in the
  final state no pair of the index has a weighted frequency that, reduced to a 32-bit
  \<^verbatim>\<open>int\<close> as the code accumulates it, is 2 or more. A pass of the loop stops it exactly
  when no pair of the index has such a frequency of at least 2; when the weighted frequency
  of every pair fits in an \<^verbatim>\<open>int\<close>, that is exactly when no pair has weighted frequency at
  least 2. A pass that merges makes the total number of tokens strictly smaller.
\<close>

theorem merge_loop_terminates:
  "(bpe_load ls = Inr st \<longrightarrow>
      (\<exists>s'. merge_loop tf bpe_rf (loop_start st) = Some s'
            \<and> length (merges s') \<le> total_tokens (l_words st)
            \<and> (\<forall>kv \<in> set (pair_to_word_indices s').
                  int32 (weighted_frequency tf (words s') (fst kv)) < 2)))
   \<and> (bpe_after k ls = Some s \<longrightarrow>
        ((\<exists>x. merge_step tf bpe_rf s = Break x) \<longleftrightarrow>
         (\<forall>kv \<in> set (pair_to_word_indices s). int32 (weighted_frequency tf (words s) (fst kv)) < 2)))
   \<and> (bpe_after k ls = Some s
        \<and> (\<forall>kv \<in> set (pair_to_word_indices s). fits_int (weighted_frequency tf (words s) (fst kv)))
        \<longrightarrow>
        ((\<exists>x. merge_step tf bpe_rf s = Break x) \<longleftrightarrow>
         (\<forall>kv \<in> set (pair_to_word_indices s). weighted_frequency tf (words s) (fst kv) < 2)))
   \<and> (bpe_after k ls = Some s \<and> merge_step tf bpe_rf s = Continue s' \<longrightarrow>
        total_tokens (words s') < total_tokens (words s))"
proof (intro conjI impI)
  assume l: "bpe_load ls = Inr st"
  have inv: "state_inv (loop_start st)" by (intro loop_start_inv bpe_load_inv[OF l])
  from merge_loop_total[OF inv, of tf bpe_rf] obtain s' where
    r: "merge_loop tf bpe_rf (loop_start st) = Some s'" and i: "state_inv s'"
    and c: "length (merges s') + total_tokens (words s')
              \<le> length (merges (loop_start st)) + total_tokens (words (loop_start st))"
    and f: "snd (find_best tf (words s') (pair_to_word_indices s')) < 2" by blast
  from i have wf: "index_wf (pair_to_word_indices s')"
    and tr: "index_tracks (words s') (pair_to_word_indices s')" by (simp_all add: state_inv_def)
  have "\<forall>kv \<in> set (pair_to_word_indices s'). int32 (weighted_frequency tf (words s') (fst kv)) < 2"
    using stop_condition[OF wf tr, of tf] f by blast
  moreover have "length (merges s') \<le> total_tokens (l_words st)"
    using c by (simp add: total_tokens_loop_start)
  ultimately show "\<exists>s'. merge_loop tf bpe_rf (loop_start st) = Some s'
            \<and> length (merges s') \<le> total_tokens (l_words st)
            \<and> (\<forall>kv \<in> set (pair_to_word_indices s').
                  int32 (weighted_frequency tf (words s') (fst kv)) < 2)"
    using r by blast
next
  assume a: "bpe_after k ls = Some s"
  then have i: "state_inv s" by (rule bpe_after_inv)
  then have wf: "index_wf (pair_to_word_indices s)"
    and tr: "index_tracks (words s) (pair_to_word_indices s)" by (simp_all add: state_inv_def)
  have "(\<exists>x. merge_step tf bpe_rf s = Break x)
          \<longleftrightarrow> snd (find_best tf (words s) (pair_to_word_indices s)) < 2"
    by (simp add: merge_step_Break_iff)
  then show "(\<exists>x. merge_step tf bpe_rf s = Break x) \<longleftrightarrow>
         (\<forall>kv \<in> set (pair_to_word_indices s). int32 (weighted_frequency tf (words s) (fst kv)) < 2)"
    using stop_condition[OF wf tr, of tf] by blast
next
  assume a: "bpe_after k ls = Some s
        \<and> (\<forall>kv \<in> set (pair_to_word_indices s). fits_int (weighted_frequency tf (words s) (fst kv)))"
  then have i: "state_inv s" using bpe_after_inv[of k ls s] by simp
  then have wf: "index_wf (pair_to_word_indices s)"
    and tr: "index_tracks (words s) (pair_to_word_indices s)" by (simp_all add: state_inv_def)
  have b: "(\<exists>x. merge_step tf bpe_rf s = Break x)
          \<longleftrightarrow> snd (find_best tf (words s) (pair_to_word_indices s)) < 2"
    by (simp add: merge_step_Break_iff)
  have r: "int32 (weighted_frequency tf (words s) (fst kv)) = weighted_frequency tf (words s) (fst kv)"
    if "kv \<in> set (pair_to_word_indices s)" for kv
  proof -
    have "fits_int (weighted_frequency tf (words s) (fst kv))" using a that by blast
    then show ?thesis by (simp add: fits_int_def int32_in_range)
  qed
  have "(\<forall>kv \<in> set (pair_to_word_indices s). int32 (weighted_frequency tf (words s) (fst kv)) < 2)
        \<longleftrightarrow> (\<forall>kv \<in> set (pair_to_word_indices s). weighted_frequency tf (words s) (fst kv) < 2)"
    using r by auto
  then show "(\<exists>x. merge_step tf bpe_rf s = Break x) \<longleftrightarrow>
         (\<forall>kv \<in> set (pair_to_word_indices s). weighted_frequency tf (words s) (fst kv) < 2)"
    using b stop_condition[OF wf tr, of tf] by blast
next
  assume a: "bpe_after k ls = Some s \<and> merge_step tf bpe_rf s = Continue s'"
  then have i: "state_inv s" using bpe_after_inv[of k ls s] by simp
  from merge_step_decreases[OF i] a show "total_tokens (words s') < total_tokens (words s)" by blast
qed

theorem merge_loop_terminates_witness:
  "merge_loop tf bpe_rf (loop_start (projr (bpe_load [''aaaa 2 1'']))) \<noteq> None
   \<and> total_tokens (l_words (projr (bpe_load [''aaaa 2 1'']))) = 4
   \<and> length (merges (the (merge_loop tf bpe_rf (loop_start (projr (bpe_load [''aaaa 2 1'']))))))
        \<le> total_tokens (l_words (projr (bpe_load [''aaaa 2 1''])))
   \<and> total_tokens (words (the (bpe_after 1 [''aaaa 2 1''])))
        < total_tokens (words (the (bpe_after 0 [''aaaa 2 1''])))
   \<and> (\<exists>x. merge_step tf bpe_rf (the (bpe_after 2 [''aaaa 2 1''])) = Break x)"
proof -
  let ?L = "[''aaaa 2 1'']"
  let ?st = "projr (bpe_load ?L)"
  have "\<not> isl (bpe_load ?L)" by code_simp
  then have l: "bpe_load ?L = Inr ?st" by simp
  have a0: "bpe_after 0 ?L = Some (the (bpe_after 0 ?L))"
  proof -
    have "bpe_after 0 ?L \<noteq> None" by code_simp
    then show ?thesis by simp
  qed
  have a1: "bpe_after 1 ?L = Some (the (bpe_after 1 ?L))"
  proof -
    have "bpe_after 1 ?L \<noteq> None" by code_simp
    then show ?thesis by simp
  qed
  have a2: "bpe_after 2 ?L = Some (the (bpe_after 2 ?L))"
  proof -
    have "bpe_after 2 ?L \<noteq> None" by code_simp
    then show ?thesis by simp
  qed
  have st: "merge_step tf bpe_rf (the (bpe_after 0 ?L)) = Continue (the (bpe_after 1 ?L))"
    using bpe_after_Suc[of 0 ?L "the (bpe_after 1 ?L)"] a1 by (intro after_step_the) simp_all
  have t4: "total_tokens (l_words ?st) = 4" by code_simp
  have fit: "\<forall>kv \<in> set (pair_to_word_indices (the (bpe_after 2 ?L))).
               fits_int (weighted_frequency tf (words (the (bpe_after 2 ?L))) (fst kv))"
    by code_simp
  have fin: "\<forall>kv \<in> set (pair_to_word_indices (the (bpe_after 2 ?L))).
               weighted_frequency tf (words (the (bpe_after 2 ?L))) (fst kv) < 2"
    by code_simp
  note T = merge_loop_terminates[where ls="?L" and st="?st"]
  from T[where k=0 and s="the (bpe_after 0 ?L)" and s'="the (bpe_after 1 ?L)"] l a0 st
  have p1: "merge_loop tf bpe_rf (loop_start ?st) \<noteq> None"
    and p2: "length (merges (the (merge_loop tf bpe_rf (loop_start ?st)))) \<le> total_tokens (l_words ?st)"
    and p3: "total_tokens (words (the (bpe_after 1 ?L))) < total_tokens (words (the (bpe_after 0 ?L)))"
    by auto
  from T[where k=2 and s="the (bpe_after 2 ?L)"] a2 fit fin
  have p4: "\<exists>x. merge_step tf bpe_rf (the (bpe_after 2 ?L)) = Break x" by blast
  show ?thesis using p1 p2 p3 p4 t4 by blast
qed

theorem merges_exceed_distinct_initial_pairs:
  "\<not> length (merges (the (merge_loop tf bpe_rf (loop_start (projr (bpe_load [''aaaa 2 1''])))))) 
       \<le> length (remdups (concat (map adjacent_pairs
                       (map tokens (l_words (projr (bpe_load [''aaaa 2 1''])))))))
   \<and> bpe_after 0 [''aaa 2147483647 1''] \<noteq> None
   \<and> bpe_after 1 [''aaa 2147483647 1''] = None
   \<and> (0, 0) \<in> fst ` set (pair_to_word_indices (the (bpe_after 0 [''aaa 2147483647 1''])))
   \<and> 2 \<le> weighted_frequency tf (words (the (bpe_after 0 [''aaa 2147483647 1'']))) (0, 0)"
  by code_simp

text \<open>
  C4, as the code has it. The frequency stored in a merge rule is: in \<^verbatim>\<open>src/bpes/bpe.cpp\<close>
  the exact number of occurrences (overlapping ones included) of the new token's string in
  the original words, summed over the words in a 32-bit \<^verbatim>\<open>int\<close>; in \<^verbatim>\<open>src/bpe.cpp\<close>, which
  keeps no original strings, the weighted frequency of the merged pair as accumulated in a
  32-bit \<^verbatim>\<open>int\<close>, which is \<^verbatim>\<open>best_freq\<close>, the number the pair was chosen by.
\<close>

theorem merge_rule_frequency:
  "(bpe_after k ls = Some s \<and> merge_step tf bpe_rf s = Continue s' \<longrightarrow>
      frequency (last (merges s'))
        = int32 (weighted_frequency tf (words s) (merge_pair (last (merges s'))))
      \<and> frequency (last (merges s')) = snd (find_best tf (words s) (pair_to_word_indices s)))
   \<and> (bpes_after k ls = Some t \<and> merge_step unit_weight bpes_rf t = Continue t' \<longrightarrow>
      frequency (last (merges t'))
        = int32 (sum_list (map (\<lambda>w. int (occurrences (original w)
                                (id_to_token (symtab t') ! nat (new_token (last (merges t'))))))
                        (words t)))
      \<and> map original (words t') = map original (words t))"
proof (intro conjI impI)
  assume a: "bpe_after k ls = Some s \<and> merge_step tf bpe_rf s = Continue s'"
  then have inv: "state_inv s" using bpe_after_inv[of k ls s] by simp
  from a have st: "merge_step tf bpe_rf s = Continue s'" by simp
  from merge_step_rule[OF inv st]
  show f: "frequency (last (merges s')) = snd (find_best tf (words s) (pair_to_word_indices s))"
    by (simp add: bpe_rf_def)
  from merge_step_selected[OF inv st]
  show "frequency (last (merges s'))
          = int32 (weighted_frequency tf (words s) (merge_pair (last (merges s'))))"
    unfolding f by blast
next
  assume a: "bpes_after k ls = Some t \<and> merge_step unit_weight bpes_rf t = Continue t'"
  then have inv: "state_inv t" using bpes_after_inv[of k ls t] by simp
  from a have st: "merge_step unit_weight bpes_rf t = Continue t'" by simp
  from merge_step_rule[OF inv st]
  have f: "frequency (last (merges t'))
             = bpes_rf (words t) (id_to_token (symtab t') ! nat (new_token (last (merges t'))))
                 (snd (find_best unit_weight (words t) (pair_to_word_indices t)))"
    and ne: "id_to_token (symtab t') ! nat (new_token (last (merges t'))) \<noteq> []"
    by blast+
  show "frequency (last (merges t'))
        = int32 (sum_list (map (\<lambda>w. int (occurrences (original w)
                                (id_to_token (symtab t') ! nat (new_token (last (merges t'))))))
                        (words t)))"
    unfolding f by (rule bpes_rf_sum[OF ne])
  show "map original (words t') = map original (words t)"
    by (rule merge_step_frame[where g=original, OF _ st]) simp
qed

theorem merge_rule_frequency_witness:
  "frequency (last (merges (the (bpe_after 1 [''abab 3 1'', ''cab 2 5'']))))
     = int32 (weighted_frequency tf (words (the (bpe_after 0 [''abab 3 1'', ''cab 2 5'']))) (0, 1))
   \<and> weighted_frequency tf (words (the (bpe_after 0 [''abab 3 1'', ''cab 2 5'']))) (0, 1) = 8
   \<and> frequency (last (merges (the (bpes_after 1 [''abab 3 1'', ''cab 2 5'']))))
     = int32 (sum_list (map (\<lambda>w. int (occurrences (original w) ''ab''))
                     (words (the (bpes_after 0 [''abab 3 1'', ''cab 2 5''])))))
   \<and> map original (words (the (bpes_after 0 [''abab 3 1'', ''cab 2 5'']))) = [''abab'', ''cab'']
   \<and> occurrences ''abab'' ''ab'' = 2 \<and> occurrences ''cab'' ''ab'' = 1"
proof -
  let ?L = "[''abab 3 1'', ''cab 2 5'']"
  have a0: "bpe_after 0 ?L = Some (the (bpe_after 0 ?L))"
  proof -
    have "bpe_after 0 ?L \<noteq> None" by code_simp
    then show ?thesis by simp
  qed
  have a1: "bpe_after 1 ?L = Some (the (bpe_after 1 ?L))"
  proof -
    have "bpe_after 1 ?L \<noteq> None" by code_simp
    then show ?thesis by simp
  qed
  have b0: "bpes_after 0 ?L = Some (the (bpes_after 0 ?L))"
  proof -
    have "bpes_after 0 ?L \<noteq> None" by code_simp
    then show ?thesis by simp
  qed
  have b1: "bpes_after 1 ?L = Some (the (bpes_after 1 ?L))"
  proof -
    have "bpes_after 1 ?L \<noteq> None" by code_simp
    then show ?thesis by simp
  qed
  have st: "merge_step tf bpe_rf (the (bpe_after 0 ?L)) = Continue (the (bpe_after 1 ?L))"
    using bpe_after_Suc[of 0 ?L "the (bpe_after 1 ?L)"] a1 by (intro after_step_the) simp_all
  have tt: "merge_step unit_weight bpes_rf (the (bpes_after 0 ?L)) = Continue (the (bpes_after 1 ?L))"
    using bpes_after_Suc[of 0 ?L "the (bpes_after 1 ?L)"] b1 by (intro after_step_the) simp_all
  have v: "merge_pair (last (merges (the (bpe_after 1 ?L)))) = (0, 1)"
    "id_to_token (symtab (the (bpes_after 1 ?L))) ! nat (new_token (last (merges (the (bpes_after 1 ?L))))) = ''ab''"
    "weighted_frequency tf (words (the (bpe_after 0 ?L))) (0, 1) = 8"
    "map original (words (the (bpes_after 0 ?L))) = [''abab'', ''cab'']"
    "occurrences ''abab'' ''ab'' = 2" "occurrences ''cab'' ''ab'' = 1"
    by code_simp+
  from merge_rule_frequency[where k=0 and ls="?L" and s="the (bpe_after 0 ?L)" and s'="the (bpe_after 1 ?L)"
      and t="the (bpes_after 0 ?L)" and t'="the (bpes_after 1 ?L)"]
    a0 b0 st tt v
  show ?thesis by simp
qed

theorem recorded_frequency_is_not_the_exact_count:
  "frequency (last (merges (the (bpe_after 1 [''ab 5 1'']))))
     = weighted_frequency tf (words (the (bpe_after 0 [''ab 5 1''])))
         (merge_pair (last (merges (the (bpe_after 1 [''ab 5 1''])))))
   \<and> frequency (last (merges (the (bpe_after 1 [''ab 5 1''])))) = 5
   \<and> id_to_token (symtab (the (bpe_after 1 [''ab 5 1''])))
        ! nat (new_token (last (merges (the (bpe_after 1 [''ab 5 1''])))))  = ''ab''
   \<and> occurrences ''ab'' ''ab'' = 1
   \<and> frequency (last (merges (the (bpe_sa_after 1 [''aaaa'']))))  = 2
   \<and> id_to_token (symtab (the (bpe_sa_after 1 [''aaaa''])))
        ! nat (new_token (last (merges (the (bpe_sa_after 1 [''aaaa'']))))) = ''aa''
   \<and> corpus_of (words (the (bpe_sa_after 0 [''aaaa'']))) = ''aaaa#''
   \<and> occurrences ''aaaa#'' ''aa'' = 3"
  by code_simp

text \<open>
  C3. On the corpus \<^verbatim>\<open>aaa#\<close>, which \<^verbatim>\<open>src/bpes/bpe_sa.cpp\<close> builds from the single word
  \<^verbatim>\<open>aaa\<close>, \<^verbatim>\<open>countOccurrences("a")\<close> returns 2 while \<^verbatim>\<open>a\<close> starts at 3 positions: the
  constructor sorts the states by decreasing length into \<^verbatim>\<open>order\<close> and then adds the counts
  up in the order of the state indices.
\<close>

theorem countOccurrences_differs_from_scan:
  "sa_count ''aaa#'' ''a'' = Some (Inr 2) \<and> count_occurrences ''aaa#'' ''a'' = 3"
  by code_simp

text \<open>
  C8. With no word in the input, \<^verbatim>\<open>src/bpes/bpe_sa.cpp\<close> builds the automaton of the empty
  corpus: \<^verbatim>\<open>st.resize(0)\<close> and then a write to \<^verbatim>\<open>st[0]\<close>, an index beyond the vector.
  \<^verbatim>\<open>src/bpe.cpp\<close> and \<^verbatim>\<open>src/bpes/bpe.cpp\<close> end with exit code 0 and both output files empty.
\<close>

theorem empty_input_runs:
  "bpe_sa_main [] = Some (Inl OutOfRange)
   \<and> bpe_main [] = Some (Inr \<lparr>exit_code = 0, tokens_file = [], merges_file = [], cerr = []\<rparr>)
   \<and> bpes_main [] = Some (Inr \<lparr>exit_code = 0, tokens_file = [], merges_file = [], cerr = []\<rparr>)"
  by code_simp

text \<open>
  C6, as the code has it. On the one word \<^verbatim>\<open>aaaa\<close> (weight 1) the trainers merge the pair
  (a, a), whose weighted frequency is 3 (the three neighbouring positions), into \<^verbatim>\<open>aa\<close>; the
  word becomes the two tokens \<^verbatim>\<open>aa aa\<close>, the only pair left has weighted frequency 1, and the
  loop stops after this one merge.
\<close>

theorem aaaa_scenario:
  "map tokens (words (the (bpe_sa_after 0 [''aaaa'']))) = [[0, 0, 0, 0]]
   \<and> weighted_frequency unit_weight (words (the (bpe_sa_after 0 [''aaaa'']))) (0, 0) = 3
   \<and> map merge_pair (merges (the (bpe_sa_after 1 [''aaaa'']))) = [(0, 0)]
   \<and> id_to_token (symtab (the (bpe_sa_after 1 [''aaaa'']))) = [''a'', ''aa'']
   \<and> map tokens (words (the (bpe_sa_after 1 [''aaaa'']))) = [[1, 1]]
   \<and> map fst (pair_to_word_indices (the (bpe_sa_after 1 [''aaaa'']))) = [(1, 1)]
   \<and> weighted_frequency unit_weight (words (the (bpe_sa_after 1 [''aaaa'']))) (1, 1) = 1
   \<and> bpe_sa_after 2 [''aaaa''] = None
   \<and> bpe_sa_main [''aaaa''] =
       Some (Inr \<lparr>exit_code = 0, tokens_file = [(''a'', 2), (''aa'', 2)],
                  merges_file = [(''a'', ''a'', ''aa'', 2)], cerr = []\<rparr>)
   \<and> bpe_main [''aaaa 1 1''] =
       Some (Inr \<lparr>exit_code = 0, tokens_file = [(''aa'', 2)],
                  merges_file = [(''a'', ''a'', ''aa'', 3)], cerr = []\<rparr>)"
  by code_simp

theorem aaaa_merges_once:
  "length (merges_file (projr (the (bpe_sa_main [''aaaa''])))) = 1
   \<and> length (merges_file (projr (the (bpe_main [''aaaa 1 1''])))) = 1"
  by code_simp




text \<open>
  C10. In \<^verbatim>\<open>src/bpes/bpe2.cpp\<close> the spacer, token 0, is in no key of the pair map: the list is
  built and the first pair map returned for every input, and neither that map nor the map
  after any number of merge passes has a key with a component 0; one update of the map for
  one occurrence (the splice and the two guarded updates of the neighbouring pairs) keeps
  the property, from any store and for any new token. So the pair that a pass selects for
  merging (one of frequency at least 2) has no component 0; a node that the processing of
  an occurrence removes is the successor of the occurrence's node, and the two carry the
  tokens of the selected pair; and every node that is a spacer at the start is a spacer
  after the passes, with its \<^verbatim>\<open>removed\<close> flag as it was.
\<close>

theorem spacer_never_in_pair_map:
  "(\<exists>s0. bpe2_start ls = Some s0)
   \<and> (bpe2_after k ls = Some s \<longrightarrow> no_spacer_pairs (pairMap s))
   \<and> (no_spacer_pairs pm \<longrightarrow> no_spacer_pairs (snd (process_occ bp nid left (h, pm))))
   \<and> (bpe2_after k ls = Some s \<and> 2 \<le> snd (find_bestPair (pairMap s)) \<longrightarrow>
        fst (fst (find_bestPair (pairMap s))) \<noteq> 0 \<and> snd (fst (find_bestPair (pairMap s))) \<noteq> 0)
   \<and> (removed (fst (process_occ bp nid left (h, pm)) a) \<and> \<not> removed (h a) \<longrightarrow>
        next_nd (h left) = Some a \<and> token (h left) = fst bp \<and> token (h a) = snd bp)
   \<and> (bpe2_start ls = Some s0 \<and> bpe2_after k ls = Some s \<and> token (store s0 a) = 0 \<longrightarrow>
        token (store s a) = 0 \<and> removed (store s a) = removed (store s0 a))"
proof (intro conjI impI)
  show "\<exists>s0. bpe2_start ls = Some s0" by (rule bpe2_start_total)
next
  assume "bpe2_after k ls = Some s"
  then show "no_spacer_pairs (pairMap s)" by (rule bpe2_after_no_spacer)
next
  assume "no_spacer_pairs pm"
  then show "no_spacer_pairs (snd (process_occ bp nid left (h, pm)))" by (rule process_occ_no_spacer)
next
  assume a: "bpe2_after k ls = Some s \<and> 2 \<le> snd (find_bestPair (pairMap s))"
  then have "bpe2_after k ls = Some s" by simp
  then have "no_spacer_pairs (pairMap s)" by (rule bpe2_after_no_spacer)
  moreover from a have "2 \<le> snd (find_bestPair (pairMap s))" by simp
  then have "fst (find_bestPair (pairMap s)) \<in> fst ` set (pairMap s)"
    by (rule find_bestPair_key)
  ultimately have "fst (fst (find_bestPair (pairMap s))) \<noteq> 0 \<and> snd (fst (find_bestPair (pairMap s))) \<noteq> 0"
    unfolding no_spacer_pairs_def by blast
  then show "fst (fst (find_bestPair (pairMap s))) \<noteq> 0" "snd (fst (find_bestPair (pairMap s))) \<noteq> 0"
    by simp_all
next
  assume a: "removed (fst (process_occ bp nid left (h, pm)) a) \<and> \<not> removed (h a)"
  then have "removed (fst (process_occ bp nid left (h, pm)) a)" "\<not> removed (h a)" by simp_all
  then have r: "next_nd (h left) = Some a \<and> token (h left) = fst bp \<and> token (h a) = snd bp"
    by (rule process_occ_removed)
  from r show "next_nd (h left) = Some a" by simp
  from r show "token (h left) = fst bp" by simp
  from r show "token (h a) = snd bp" by simp
next
  assume a: "bpe2_start ls = Some s0 \<and> bpe2_after k ls = Some s \<and> token (store s0 a) = 0"
  then have i: "bpe2_iterations k s0 = Some s" by (auto simp: bpe2_after_def)
  from a have "bpe2_start ls = Some s0" by simp
  then have ok: "no_spacer_pairs (pairMap s0)" by (rule bpe2_start_no_spacer)
  from a have t: "token (store s0 a) = 0" by simp
  note r = bpe2_iterations_spacers[OF i ok t]
  from r show "token (store s a) = 0" by simp
  from r show "removed (store s a) = removed (store s0 a)" by simp
qed


theorem spacer_never_in_pair_map_witness:
  "map fst (pairMap (the (bpe2_start [''abab'', ''ab'']))) = [(1, 2), (2, 1)]
   \<and> map fst (pairMap (the (bpe2_after 1 [''abab'', ''ab'']))) = [(3, 3)]
   \<and> no_spacer_pairs (pairMap (the (bpe2_after 1 [''abab'', ''ab''])))
   \<and> no_spacer_pairs (snd (process_occ (1, 2) 3 0
         (store (the (bpe2_after 0 [''abab'', ''ab''])), pairMap (the (bpe2_after 0 [''abab'', ''ab''])))))
   \<and> find_bestPair (pairMap (the (bpe2_after 0 [''abab'', ''ab'']))) = ((1, 2), 3)
   \<and> fst (fst (find_bestPair (pairMap (the (bpe2_after 0 [''abab'', ''ab'']))))) \<noteq> 0
   \<and> snd (fst (find_bestPair (pairMap (the (bpe2_after 0 [''abab'', ''ab'']))))) \<noteq> 0
   \<and> removed (fst (process_occ (1, 2) 3 0
         (store (the (bpe2_after 0 [''abab'', ''ab''])), pairMap (the (bpe2_after 0 [''abab'', ''ab''])))) 1)
   \<and> next_nd (store (the (bpe2_after 0 [''abab'', ''ab''])) 0) = Some 1
   \<and> token (store (the (bpe2_after 0 [''abab'', ''ab''])) 0) = 1
   \<and> token (store (the (bpe2_after 0 [''abab'', ''ab''])) 1) = 2
   \<and> token (store (the (bpe2_start [''abab'', ''ab''])) 4) = 0
   \<and> token (store (the (bpe2_after 1 [''abab'', ''ab''])) 4) = 0
   \<and> removed (store (the (bpe2_after 1 [''abab'', ''ab''])) 4) = False"
proof -
  let ?L = "[''abab'', ''ab'']"
  let ?s0 = "the (bpe2_after 0 ?L)" and ?s1 = "the (bpe2_after 1 ?L)" and ?i = "the (bpe2_start ?L)"
  let ?h = "store ?s0" and ?pm = "pairMap ?s0"
  note T = spacer_never_in_pair_map[where ls = ?L]
  have st: "bpe2_start ?L = Some ?i"
  proof -
    have "bpe2_start ?L \<noteq> None" by code_simp
    then show ?thesis by simp
  qed
  have a0: "bpe2_after 0 ?L = Some ?s0"
  proof -
    have "bpe2_after 0 ?L \<noteq> None" by code_simp
    then show ?thesis by simp
  qed
  have a1: "bpe2_after 1 ?L = Some ?s1"
  proof -
    have "bpe2_after 1 ?L \<noteq> None" by code_simp
    then show ?thesis by simp
  qed
  have k0: "map fst (pairMap ?i) = [(1, 2), (2, 1)]" by code_simp
  have k1: "map fst (pairMap ?s1) = [(3, 3)]" by code_simp
  have b: "find_bestPair ?pm = ((1, 2), 3)" by code_simp
  have r: "removed (fst (process_occ (1, 2) 3 0 (?h, ?pm)) 1)" by code_simp
  have nr: "\<not> removed (?h 1)" by code_simp
  have z: "token (store ?i 4) = 0" by code_simp
  have f: "removed (store ?i 4) = False" by code_simp
  have c2: "no_spacer_pairs (pairMap ?s1)"
    using T[where k = 1 and s = ?s1] a1 by blast
  have ok0: "no_spacer_pairs ?pm"
    using T[where k = 0 and s = ?s0] a0 by blast
  have c3: "no_spacer_pairs (snd (process_occ (1, 2) 3 0 (?h, ?pm)))"
    using T[where pm = ?pm and bp = "(1, 2)" and nid = 3 and left = 0 and h = ?h] ok0 by blast
  have c4: "fst (fst (find_bestPair ?pm)) \<noteq> 0 \<and> snd (fst (find_bestPair ?pm)) \<noteq> 0"
    using T[where k = 0 and s = ?s0] a0 b by simp
  have c5: "next_nd (?h 0) = Some 1 \<and> token (?h 0) = 1 \<and> token (?h 1) = 2"
    using T[where pm = ?pm and bp = "(1, 2)" and nid = 3 and left = 0 and h = ?h and a = 1] r nr
    by simp
  have c6: "token (store ?s1 4) = 0 \<and> removed (store ?s1 4) = removed (store ?i 4)"
    using T[where k = 1 and s = ?s1 and ?s0.0 = ?i and a = 4] st a1 z by blast
  from k0 k1 c2 c3 b c4 r c5 c6 z f show ?thesis by simp
qed

end
